theory Spec2Isabelle
  imports Main
begin

section \<open>Data model of \<open>game_routes.py\<close>\<close>

text \<open>
  A square of the grid is Python's \<open>Optional[int]\<close>: \<open>None\<close> for an empty square, otherwise
  the integer found there (\<open>PLAYER_X = 1\<close>, \<open>PLAYER_O = 2\<close>; nothing in the source restricts
  the integers inside a grid).

  Grids are Python lists, which are mutable and shared by reference: \<open>Board(grid)\<close> keeps the
  very list it is given, \<open>grid.copy()\<close> makes a fresh one. The lists therefore live in a store,
  addressed by their position in it; allocating appends to the store. A \<open>Board\<close> object
  holds the address of its grid and its \<open>winning_index\<close>. No \<open>Board\<close> object is ever
  reachable through two references, so a \<open>Board\<close> is passed by value and a method that
  assigns to one of its fields returns the updated object.
\<close>

type_synonym cell = "int option"
type_synonym addr = nat
type_synonym store = "cell list list"

text \<open>The exceptions the code can raise: a list index out of range, a dictionary key that is
  not there.\<close>

datatype error = IndexError | KeyError

record Board =
  grid :: addr
  winning_index :: "nat option"

text \<open>The constants of the module.\<close>

definition DIMENSIONS :: nat where
  "DIMENSIONS = 3"

definition DRAW :: int where
  "DRAW = 0"

definition PLAYER_X :: int where
  "PLAYER_X = 1"

definition PLAYER_O :: int where
  "PLAYER_O = 2"

definition SCORES :: "int \<rightharpoonup> int" where
  "SCORES = [PLAYER_X \<mapsto> 1, DRAW \<mapsto> 0, PLAYER_O \<mapsto> - 1]"

text \<open>\<open>GAME_MODES\<close> is read by key and through \<open>.values()\<close>, so it is kept as the list of
  its items.\<close>

definition GAME_MODES :: "(string \<times> string) list" where
  "GAME_MODES = [(''easy'', ''easy''), (''medium'', ''medium''), (''difficult'', ''difficult'')]"

subsection \<open>Lists in the store\<close>

text \<open>Allocation of a new list object: it gets the next free address.\<close>

definition alloc :: "cell list \<Rightarrow> store \<Rightarrow> addr \<times> store" where
  "alloc xs s = (length s, s @ [xs])"

text \<open>
  The list object at an address. Every reference of a Python state points to an object, so
  an address outside the store arises in no run of the program; to keep the model total the
  lookup gives the empty list there.
\<close>

definition lookup :: "store \<Rightarrow> addr \<Rightarrow> cell list" where
  "lookup s a = (if a < length s then s ! a else [])"

text \<open>\<open>lst.copy()\<close>: a new list object with the same elements.\<close>

definition list_copy :: "addr \<Rightarrow> store \<Rightarrow> addr \<times> store" where
  "list_copy a s = alloc (lookup s a) s"

text \<open>
  Python's index normalisation for a list of length \<open>n\<close>: a negative index counts from the
  end, and an index outside \<open>-n..n-1\<close> raises \<open>IndexError\<close> (here: \<open>None\<close>).
\<close>

definition py_index :: "nat \<Rightarrow> int \<Rightarrow> nat option" where
  "py_index n i =
     (if 0 \<le> i \<and> i < int n then Some (nat i)
      else if - int n \<le> i \<and> i < 0 then Some (nat (i + int n))
      else None)"

text \<open>Reading \<open>xs[i]\<close> for an index that is a literal of the source (never negative).\<close>

definition list_get :: "cell list \<Rightarrow> nat \<Rightarrow> error + cell" where
  "list_get xs i = (if i < length xs then Inr (xs ! i) else Inl IndexError)"

section \<open>The class \<open>Board\<close>\<close>

text \<open>\<open>Board.__init__(grid=None)\<close>: without a grid a new list of nine \<open>None\<close> is allocated;
  a grid that is passed is kept as it is, by reference.\<close>

definition Board_init :: "addr option \<Rightarrow> store \<Rightarrow> Board \<times> store" where
  "Board_init g s =
     (case g of
        Some a \<Rightarrow> (\<lparr>grid = a, winning_index = None\<rparr>, s)
      | None \<Rightarrow>
          (let (a, s') = alloc (replicate (DIMENSIONS ^ 2) None) s
           in (\<lparr>grid = a, winning_index = None\<rparr>, s')))"

text \<open>\<open>Board.make_move(square, player)\<close> writes into the list of the board, in place, and
  only when the square holds \<open>None\<close>. Reading \<open>self.grid[square]\<close> raises \<open>IndexError\<close>
  when the index is out of range.\<close>

definition make_move :: "Board \<Rightarrow> int \<Rightarrow> int \<Rightarrow> store \<Rightarrow> (error + unit) \<times> store" where
  "make_move board square player s =
     (let xs = lookup s (grid board) in
      case py_index (length xs) square of
        None \<Rightarrow> (Inl IndexError, s)
      | Some k \<Rightarrow>
          if xs ! k = None then (Inr (), s[grid board := xs[k := Some player]])
          else (Inr (), s))"

text \<open>The optional \<open>grid\<close> parameter of the query methods: \<open>None\<close> means \<open>self.grid\<close>.\<close>

definition grid_arg :: "Board \<Rightarrow> addr option \<Rightarrow> addr" where
  "grid_arg board g = (case g of None \<Rightarrow> grid board | Some a \<Rightarrow> a)"

text \<open>\<open>[i for i, square in enumerate(grid) if square is None]\<close>\<close>

definition get_empty_squares :: "Board \<Rightarrow> addr option \<Rightarrow> store \<Rightarrow> nat list" where
  "get_empty_squares board g s =
     (let xs = lookup s (grid_arg board g) in filter (\<lambda>i. xs ! i = None) [0..<length xs])"

text \<open>\<open>len(self.get_empty_squares(grid)) == DIMENSIONS ** 2\<close>\<close>

definition is_empty :: "Board \<Rightarrow> addr option \<Rightarrow> store \<Rightarrow> bool" where
  "is_empty board g s = (length (get_empty_squares board g s) = DIMENSIONS ^ 2)"

text \<open>The table of lines of \<open>get_winner\<close>, in the order of the source.\<close>

definition winning_combos :: "(nat \<times> nat \<times> nat) list" where
  "winning_combos =
     [(0, 1, 2), (3, 4, 5), (6, 7, 8),
      (0, 3, 6), (1, 4, 7), (2, 5, 8),
      (0, 4, 8), (2, 4, 6)]"

text \<open>
  The test \<open>grid[c0] is not None and grid[c0] == grid[c1] == grid[c2]\<close>. Python evaluates it
  from left to right and stops as soon as the result is known, so a square is read (and can
  raise \<open>IndexError\<close> on a short list) only when the tests before it have passed.
\<close>

definition combo_wins :: "cell list \<Rightarrow> nat \<times> nat \<times> nat \<Rightarrow> error + bool" where
  "combo_wins xs combo =
     (case combo of (c0, c1, c2) \<Rightarrow>
        (case list_get xs c0 of
           Inl e \<Rightarrow> Inl e
         | Inr x \<Rightarrow>
             if x = None then Inr False
             else (case list_get xs c1 of
                     Inl e \<Rightarrow> Inl e
                   | Inr y \<Rightarrow>
                       if x \<noteq> y then Inr False
                       else (case list_get xs c2 of
                               Inl e \<Rightarrow> Inl e
                             | Inr z \<Rightarrow> Inr (y = z)))))"

text \<open>The loop \<open>for i, combo in enumerate(winning_combos)\<close>: the first line that passes the
  test gives its index and the content of its first square.\<close>

fun scan_combos :: "cell list \<Rightarrow> nat \<Rightarrow> (nat \<times> nat \<times> nat) list \<Rightarrow> error + (nat \<times> cell) option" where
  "scan_combos xs i [] = Inr None"
| "scan_combos xs i (combo # rest) =
     (case combo_wins xs combo of
        Inl e \<Rightarrow> Inl e
      | Inr True \<Rightarrow> Inr (Some (i, xs ! fst combo))
      | Inr False \<Rightarrow> scan_combos xs (Suc i) rest)"

text \<open>\<open>Board.get_winner(grid=None)\<close> returns the winner (\<open>None\<close> while the game goes on)
  and assigns \<open>self.winning_index\<close>; it writes to no list.\<close>

definition get_winner :: "Board \<Rightarrow> addr option \<Rightarrow> store \<Rightarrow> error + (cell \<times> Board)" where
  "get_winner board g s =
     (case scan_combos (lookup s (grid_arg board g)) 0 winning_combos of
        Inl e \<Rightarrow> Inl e
      | Inr (Some (i, w)) \<Rightarrow> Inr (w, board\<lparr>winning_index := Some i\<rparr>)
      | Inr None \<Rightarrow>
          if length (get_empty_squares board g s) = 0
          then Inr (Some DRAW, board\<lparr>winning_index := None\<rparr>)
          else Inr (None, board))"

text \<open>\<open>Board.clone()\<close> is \<open>Board(self.grid.copy())\<close>.\<close>

definition clone :: "Board \<Rightarrow> store \<Rightarrow> Board \<times> store" where
  "clone board s = (let (a, s') = list_copy (grid board) s in Board_init (Some a) s')"

text \<open>\<open>PLAYER_O if player == PLAYER_X else PLAYER_X\<close>\<close>

definition switch_player :: "int \<Rightarrow> int" where
  "switch_player player = (if player = PLAYER_X then PLAYER_O else PLAYER_X)"

section \<open>The solver\<close>

text \<open>
  \<open>minimax(board, player)\<close>. The \<open>for\<close> loop over the empty squares is the function
  \<open>minimax_loop\<close>, which carries the loop variables \<open>max_score\<close> and \<open>best_move\<close> and the
  squares still to visit. Every iteration clones the board in the store as it is at that
  moment, so the store is threaded through the recursive calls. A \<open>KeyError\<close> of
  \<open>SCORES[...]\<close> and an \<open>IndexError\<close> of a list access end the call with that error.
\<close>

function minimax :: "Board \<Rightarrow> int \<Rightarrow> store \<Rightarrow> (error + int \<times> nat option) \<times> Board \<times> store"
  and minimax_loop :: "Board \<Rightarrow> int \<Rightarrow> int \<Rightarrow> nat list \<Rightarrow> int \<Rightarrow> nat option \<Rightarrow> store
                        \<Rightarrow> (error + int \<times> nat option) \<times> store"
where
  "minimax board player s =
     (case SCORES player of
        None \<Rightarrow> (Inl KeyError, board, s)
      | Some multiplier \<Rightarrow>
          (case get_winner board None s of
             Inl e \<Rightarrow> (Inl e, board, s)
           | Inr (Some winner, board') \<Rightarrow>
               (case SCORES winner of
                  None \<Rightarrow> (Inl KeyError, board', s)
                | Some sc \<Rightarrow> (Inr (sc, None), board', s))
           | Inr (None, board') \<Rightarrow>
               (case minimax_loop board' player multiplier (get_empty_squares board' None s) (- 1) None s of
                  (Inl e, s') \<Rightarrow> (Inl e, board', s')
                | (Inr (max_score, best_move), s') \<Rightarrow>
                    (Inr (multiplier * max_score, best_move), board', s'))))"
| "minimax_loop board player multiplier [] max_score best_move s = (Inr (max_score, best_move), s)"
| "minimax_loop board player multiplier (square # rest) max_score best_move s =
     (case clone board s of (board_copy, s1) \<Rightarrow>
        (case make_move board_copy (int square) player s1 of
           (Inl e, s2) \<Rightarrow> (Inl e, s2)
         | (Inr u, s2) \<Rightarrow>
             (case minimax board_copy (switch_player player) s2 of
                (Inl e, b3, s3) \<Rightarrow> (Inl e, s3)
              | (Inr (sub_score, sub_move), b3, s3) \<Rightarrow>
                  (let score = multiplier * sub_score in
                   if score \<ge> max_score
                   then minimax_loop board player multiplier rest score (Some square) s3
                   else minimax_loop board player multiplier rest max_score best_move s3))))"
  by pat_completeness auto

subsection \<open>The search allocates, and writes only to what it allocates\<close>

text \<open>
  One store extends another when it is the other with more lists appended: every list of
  the smaller store is in the larger one, at the same address and with the same elements.
\<close>

definition store_le :: "store \<Rightarrow> store \<Rightarrow> bool" where
  "store_le s s' \<longleftrightarrow> (\<exists>ext. s' = s @ ext)"

lemma store_le_refl: "store_le s s"
  by (simp add: store_le_def)

lemma store_le_trans: "store_le s s' \<Longrightarrow> store_le s' s'' \<Longrightarrow> store_le s s''"
  by (auto simp: store_le_def)

lemma store_le_lookup: "store_le s s' \<Longrightarrow> a < length s \<Longrightarrow> lookup s' a = lookup s a"
  by (auto simp: store_le_def lookup_def nth_append)

lemma store_le_length: "store_le s s' \<Longrightarrow> length s \<le> length s'"
  by (auto simp: store_le_def)

lemma clone_eq:
  "clone board s = (\<lparr>grid = length s, winning_index = None\<rparr>, s @ [lookup s (grid board)])"
  by (simp add: clone_def list_copy_def alloc_def Board_init_def)

lemma make_move_fresh:
  "make_move \<lparr>grid = length s, winning_index = w\<rparr> (int square) player (s @ [xs]) =
     (if square < length xs
      then (Inr (), s @ [if xs ! square = None then xs[square := Some player] else xs])
      else (Inl IndexError, s @ [xs]))"
  by (auto simp: make_move_def lookup_def py_index_def Let_def)

lemma get_winner_grid: "get_winner board g s = Inr (w, board') \<Longrightarrow> grid board' = grid board"
  by (auto simp: get_winner_def split: sum.splits option.splits if_splits)

lemma minimax_frame_dom:
  "minimax_minimax_loop_dom (Inl (board, player, s)) \<Longrightarrow>
     store_le s (snd (snd (minimax board player s)))"
  "minimax_minimax_loop_dom (Inr (board, player, multiplier, squares, max_score, best_move, s)) \<Longrightarrow>
     store_le s (snd (minimax_loop board player multiplier squares max_score best_move s))"
proof (induct rule: minimax_minimax_loop.pinduct)
  case (1 board player s)
  note dom = 1(1)
  show ?case
  proof (cases "SCORES player")
    case None
    then show ?thesis
      by (simp add: minimax.psimps[OF dom] store_le_refl)
  next
    case (Some multiplier)
    show ?thesis
    proof (cases "get_winner board None s")
      case (Inl e)
      then show ?thesis
        using Some by (simp add: minimax.psimps[OF dom] store_le_refl)
    next
      case (Inr b)
      obtain w board' where b: "b = (w, board')" by (cases b) auto
      show ?thesis
      proof (cases w)
        case None
        have "store_le s (snd (minimax_loop board' player multiplier
                 (get_empty_squares board' None s) (- 1) None s))"
          by (rule 1(2)[of multiplier b w board']) (simp_all add: Some Inr b None)
        then show ?thesis
          using Some Inr b None
          by (auto simp: minimax.psimps[OF dom] split: prod.splits sum.splits)
      next
        case (Some winner)
        then show ?thesis
          using \<open>SCORES player = Some multiplier\<close> Inr b
          by (simp add: minimax.psimps[OF dom] store_le_refl split: option.splits)
      qed
    qed
  qed
next
  case (2 board player multiplier max_score best_move s)
  then show ?case
    by (simp add: minimax_loop.psimps store_le_refl)
next
  case (3 board player multiplier square rest max_score best_move s)
  let ?c = "\<lparr>grid = length s, winning_index = None\<rparr>"
  let ?xs = "lookup s (grid board)"
  note dom = 3(1)
  show ?case
  proof (cases "square < length ?xs")
    case False
    then show ?thesis
      by (simp add: minimax_loop.psimps(2)[OF dom] clone_eq make_move_fresh store_le_def)
  next
    case True
    define s2 where "s2 = s @ [if ?xs ! square = None then ?xs[square := Some player] else ?xs]"
    have mv: "make_move ?c (int square) player (s @ [?xs]) = (Inr (), s2)"
      using True by (simp add: make_move_fresh s2_def)
    have le2: "store_le s s2"
      by (simp add: s2_def store_le_def)
    obtain r b3 s3 where res: "minimax ?c (switch_player player) s2 = (r, b3, s3)"
      by (cases "minimax ?c (switch_player player) s2") auto
    have "store_le s2 (snd (snd (minimax ?c (switch_player player) s2)))"
      by (rule 3(2)[of ?c "s @ [?xs]" "Inr ()" s2 "()"]) (simp_all add: clone_eq mv)
    then have le3: "store_le s s3"
      using le2 res by (auto intro: store_le_trans)
    show ?thesis
    proof (cases r)
      case (Inl e)
      then show ?thesis
        using le3 res by (simp add: minimax_loop.psimps(2)[OF dom] clone_eq mv)
    next
      case (Inr v)
      obtain cs cm where v: "v = (cs, cm)" by (cases v) auto
      show ?thesis
      proof (cases "max_score \<le> multiplier * cs")
        case True
        have "store_le s3 (snd (minimax_loop board player multiplier rest (multiplier * cs) (Some square) s3))"
          by (rule 3(3)[of ?c "s @ [?xs]" "Inr ()" s2 "()" r "(b3, s3)" v cs cm b3 s3])
             (insert True, simp_all add: clone_eq mv res Inr v)
        then show ?thesis
          using le3 res Inr v True
          by (auto simp: minimax_loop.psimps(2)[OF dom] clone_eq mv intro: store_le_trans)
      next
        case False
        have "store_le s3 (snd (minimax_loop board player multiplier rest max_score best_move s3))"
          by (rule 3(4)[of ?c "s @ [?xs]" "Inr ()" s2 "()" r "(b3, s3)" v cs cm b3 s3])
             (insert False, simp_all add: clone_eq mv res Inr v)
        then show ?thesis
          using le3 res Inr v False
          by (auto simp: minimax_loop.psimps(2)[OF dom] clone_eq mv intro: store_le_trans)
      qed
    qed
  qed
qed

subsection \<open>Termination\<close>

text \<open>
  The recursion of \<open>minimax\<close> is nested: the store given to one iteration of the loop is
  the store returned by the call of the iteration before. The measure is the number of
  empty cells of the board in that store, so the proof of termination needs the frame
  property above for the calls already made, under the assumption that they terminate.
  The loop is ranked by the number of empty cells of its board, then by whether all its
  squares are empty cells of the board (as they are when \<open>minimax\<close> starts the loop),
  then by the number of squares left.
\<close>

definition empties_count :: "store \<Rightarrow> addr \<Rightarrow> nat" where
  "empties_count s a = length (filter (\<lambda>c. c = None) (lookup s a))"

definition all_empty_at :: "store \<Rightarrow> addr \<Rightarrow> nat list \<Rightarrow> bool" where
  "all_empty_at s a squares \<longleftrightarrow>
     (\<forall>sq \<in> set squares. sq < length (lookup s a) \<and> lookup s a ! sq = None)"

fun minimax_rank :: "(Board \<times> int \<times> store) + (Board \<times> int \<times> int \<times> nat list \<times> int \<times> nat option \<times> store)
    \<Rightarrow> nat \<times> nat \<times> nat" where
  "minimax_rank (Inl (board, player, s)) = (empties_count s (grid board), 1, 0)"
| "minimax_rank (Inr (board, player, multiplier, squares, max_score, best_move, s)) =
     (empties_count s (grid board),
      if all_empty_at s (grid board) squares then 0 else 2,
      length squares)"

lemma filter_update_less:
  "i < length xs \<Longrightarrow> P (xs ! i) \<Longrightarrow> \<not> P v \<Longrightarrow>
     length (filter P (xs[i := v])) < length (filter P xs)"
proof (induction xs arbitrary: i)
  case Nil
  then show ?case by simp
next
  case (Cons x xs)
  show ?case
  proof (cases i)
    case 0
    then show ?thesis using Cons.prems by simp
  next
    case (Suc j)
    then show ?thesis using Cons.prems Cons.IH[of j] by simp
  qed
qed

lemma all_empty_at_Cons:
  "all_empty_at s a (sq # sqs) \<longleftrightarrow>
     sq < length (lookup s a) \<and> lookup s a ! sq = None \<and> all_empty_at s a sqs"
  by (auto simp: all_empty_at_def)

lemma all_empty_at_get_empty_squares:
  "all_empty_at s (grid board) (get_empty_squares board None s)"
  by (simp add: all_empty_at_def get_empty_squares_def grid_arg_def Let_def)

lemma lookup_fresh: "lookup (s @ [xs]) (length s) = xs"
  by (simp add: lookup_def)

lemma lookup_nonempty: "lookup s a \<noteq> [] \<Longrightarrow> a < length s"
  by (auto simp: lookup_def split: if_splits)

text \<open>
  Every call of \<open>minimax\<close> and of its loop terminates: the domain predicate of the
  recursion, which holds of the arguments on which the recursion is well-founded, holds of
  all arguments.
\<close>

lemma minimax_total: "All minimax_minimax_loop_dom"
proof (relation "inv_image (less_than <*lex*> less_than <*lex*> less_than) minimax_rank", goal_cases)
  case 1
  show ?case by (intro wf_inv_image wf_lex_prod wf_less_than)
next
  case (2 board player s multiplier b w board')
  then have "grid board' = grid board"
    using get_winner_grid[of board None s w board'] by simp
  then show ?case
    using all_empty_at_get_empty_squares[of s board'] by simp
next
  case (3 board player multiplier square rest max_score best_move s c s1 r s2 u)
  let ?xs = "lookup s (grid board)"
  from 3 have c: "c = \<lparr>grid = length s, winning_index = None\<rparr>" and s1: "s1 = s @ [?xs]"
    by (simp_all add: clone_eq)
  from 3(2,3) have sq: "square < length ?xs"
    and s2: "s2 = s @ [if ?xs ! square = None then ?xs[square := Some player] else ?xs]"
    unfolding c s1 make_move_fresh by (auto split: if_splits)
  show ?case
  proof (cases "?xs ! square = None")
    case True
    have "length (filter (\<lambda>c. c = None) (?xs[square := Some player])) < length (filter (\<lambda>c. c = None) ?xs)"
      using sq True by (intro filter_update_less) simp_all
    then show ?thesis
      using True by (simp add: c s2 empties_count_def lookup_fresh)
  next
    case False
    then show ?thesis
      by (auto simp: c s2 empties_count_def all_empty_at_Cons lookup_fresh)
  qed
next
  case (4 board player multiplier square rest max_score best_move s c s1 r s2 u r3 bs3 v cs cm b3 s3 score)
  let ?xs = "lookup s (grid board)"
  from 4 have c: "c = \<lparr>grid = length s, winning_index = None\<rparr>" and s1: "s1 = s @ [?xs]"
    by (simp_all add: clone_eq)
  from 4(2,3) have sq: "square < length ?xs"
    and s2: "s2 = s @ [if ?xs ! square = None then ?xs[square := Some player] else ?xs]"
    unfolding c s1 make_move_fresh by (auto split: if_splits)
  have a: "grid board < length s"
    using sq by (intro lookup_nonempty) auto
  have "store_le s2 (snd (snd (minimax c (switch_player player) s2)))"
    using 4 by (intro minimax_frame_dom(1)) simp
  moreover have "snd (snd (minimax c (switch_player player) s2)) = s3"
    using 4(4,7) by (metis snd_conv)
  moreover have "store_le s s2"
    by (simp add: s2 store_le_def)
  ultimately have "store_le s s3"
    by (auto intro: store_le_trans)
  then have "lookup s3 (grid board) = ?xs"
    using a by (rule store_le_lookup)
  then show ?case
    by (simp add: empties_count_def all_empty_at_Cons all_empty_at_def)
next
  case (5 board player multiplier square rest max_score best_move s c s1 r s2 u r3 bs3 v cs cm b3 s3 score)
  let ?xs = "lookup s (grid board)"
  from 5 have c: "c = \<lparr>grid = length s, winning_index = None\<rparr>" and s1: "s1 = s @ [?xs]"
    by (simp_all add: clone_eq)
  from 5(2,3) have sq: "square < length ?xs"
    and s2: "s2 = s @ [if ?xs ! square = None then ?xs[square := Some player] else ?xs]"
    unfolding c s1 make_move_fresh by (auto split: if_splits)
  have a: "grid board < length s"
    using sq by (intro lookup_nonempty) auto
  have "store_le s2 (snd (snd (minimax c (switch_player player) s2)))"
    using 5 by (intro minimax_frame_dom(1)) simp
  moreover have "snd (snd (minimax c (switch_player player) s2)) = s3"
    using 5(4,7) by (metis snd_conv)
  moreover have "store_le s s2"
    by (simp add: s2 store_le_def)
  ultimately have "store_le s s3"
    by (auto intro: store_le_trans)
  then have "lookup s3 (grid board) = ?xs"
    using a by (rule store_le_lookup)
  then show ?case
    by (simp add: empties_count_def all_empty_at_Cons all_empty_at_def)
qed

termination minimax
  by (rule minimax_total)

section \<open>The endpoint \<open>/ai/move\<close>\<close>

text \<open>
  The JSON body of the request: \<open>None\<close> for a key that is absent. The grid of the request
  is a list object of its own, at an address of the store.
\<close>

record request =
  req_grid :: "addr option"
  req_ai_player :: "int option"
  req_mode :: "string option"

text \<open>
  The module \<open>random\<close> is global state outside the program. One call of the endpoint draws
  at most one integer (\<open>random.choice\<close> or \<open>random.randint\<close>) and at most one float
  (\<open>random.random\<close>, of which only the comparison with \<open>0.5\<close> is used), so the draws of a
  call are a parameter: any natural number and any truth value.
\<close>

record random_draws =
  drawn_nat :: nat
  drawn_below_half :: bool

text \<open>\<open>random.choice(seq)\<close> raises \<open>IndexError\<close> on an empty sequence and otherwise gives
  one of its elements; \<open>random.randint(a, b)\<close> gives an integer from \<open>a\<close> to \<open>b\<close>.\<close>

definition random_choice :: "random_draws \<Rightarrow> nat list \<Rightarrow> error + nat" where
  "random_choice rnd xs = (if xs = [] then Inl IndexError else Inr (xs ! (drawn_nat rnd mod length xs)))"

definition random_randint :: "random_draws \<Rightarrow> nat \<Rightarrow> nat \<Rightarrow> nat" where
  "random_randint rnd a b = a + drawn_nat rnd mod (b - a + 1)"

text \<open>
  The responses: the success body with \<open>move_index\<close>, \<open>grid\<close> and \<open>ai_player\<close>; a failure
  with its HTTP status and message; and the response of the \<open>except Exception\<close> handler
  (status 500), which reports the exception that was raised.
\<close>

datatype response =
  Move_response nat "cell list" int
| Error_response nat string
| Exception_response error

text \<open>
  The part of \<open>ai_move\<close> under the comment \<open>AI Logic based on mode\<close>: it gives
  \<open>move_index\<close>. The search procedure is a parameter, so that a statement can say that a
  result does not depend on any search; the endpoint is the instance with \<open>minimax\<close>.
\<close>

definition ai_logic ::
  "(Board \<Rightarrow> int \<Rightarrow> store \<Rightarrow> (error + int \<times> nat option) \<times> Board \<times> store) \<Rightarrow>
     random_draws \<Rightarrow> string \<Rightarrow> Board \<Rightarrow> int \<Rightarrow> nat list \<Rightarrow> store \<Rightarrow> (error + nat option) \<times> store" where
  "ai_logic search rnd mode board ai_player empty_squares s =
     (if map_of GAME_MODES ''easy'' = Some mode then
        (case random_choice rnd empty_squares of
           Inl e \<Rightarrow> (Inl e, s)
         | Inr m \<Rightarrow> (Inr (Some m), s))
      else if map_of GAME_MODES ''medium'' = Some mode then
        (if is_empty board None s \<or> drawn_below_half rnd then
           (case random_choice rnd empty_squares of
              Inl e \<Rightarrow> (Inl e, s)
            | Inr m \<Rightarrow> (Inr (Some m), s))
         else
           (case search board ai_player s of
              (Inl e, b', s') \<Rightarrow> (Inl e, s')
            | (Inr (score, move_index), b', s') \<Rightarrow> (Inr move_index, s')))
      else
        (if is_empty board None s then (Inr (Some (random_randint rnd 0 8)), s)
         else
           (case search board ai_player s of
              (Inl e, b', s') \<Rightarrow> (Inl e, s')
            | (Inr (score, move_index), b', s') \<Rightarrow> (Inr move_index, s'))))"

text \<open>The part under \<open>Make the move\<close>: the move is written into a copy of the request's
  grid, which is the grid of the response.\<close>

definition apply_move ::
  "addr \<Rightarrow> int \<Rightarrow> nat list \<Rightarrow> nat option \<Rightarrow> store \<Rightarrow> response \<times> store" where
  "apply_move g ai_player empty_squares move_index s =
     (case move_index of
        None \<Rightarrow> (Error_response 500 ''Unable to determine valid move'', s)
      | Some m \<Rightarrow>
          if m \<in> set empty_squares then
            (let (new_grid, s') = list_copy g s;
                 s'' = s'[new_grid := (lookup s' new_grid)[m := Some ai_player]]
             in (Move_response m (lookup s'' new_grid) ai_player, s''))
          else (Error_response 500 ''Unable to determine valid move'', s))"

text \<open>\<open>data.get('mode', 'difficult')\<close>\<close>

definition requested_mode :: "request \<Rightarrow> string" where
  "requested_mode d = (case req_mode d of None \<Rightarrow> ''difficult'' | Some m \<Rightarrow> m)"

text \<open>
  The body of \<open>ai_move\<close>. A request without a body, or with an empty one, is \<open>None\<close>. The
  checks are made in the order of the source, and each failure returns at once. The
  statements after the validation are inside the \<open>try\<close> block: an exception of the search
  gives the response of the handler.
\<close>

definition ai_move_with ::
  "(Board \<Rightarrow> int \<Rightarrow> store \<Rightarrow> (error + int \<times> nat option) \<times> Board \<times> store) \<Rightarrow>
     random_draws \<Rightarrow> request option \<Rightarrow> store \<Rightarrow> response \<times> store" where
  "ai_move_with search rnd data s =
     (case data of
        None \<Rightarrow> (Error_response 400 ''No data provided'', s)
      | Some d \<Rightarrow>
          (case (req_grid d, req_ai_player d) of
             (Some g, Some ai_player) \<Rightarrow>
               (let mode = requested_mode d in
                if length (lookup s g) \<noteq> 9 then
                  (Error_response 400 ''Grid must have exactly 9 elements'', s)
                else if ai_player \<notin> set [PLAYER_X, PLAYER_O] then
                  (Error_response 400 ''ai_player must be 1 (X) or 2 (O)'', s)
                else if mode \<notin> set (map snd GAME_MODES) then
                  (Error_response 400 ''Invalid mode. Use: easy, medium, or difficult'', s)
                else
                  (let (a, s1) = list_copy g s;
                       (board, s2) = Board_init (Some a) s1;
                       empty_squares = get_empty_squares board None s2
                   in if empty_squares = [] then
                        (Error_response 400 ''No valid moves available'', s2)
                      else
                        (case ai_logic search rnd mode board ai_player empty_squares s2 of
                           (Inl e, s3) \<Rightarrow> (Exception_response e, s3)
                         | (Inr move_index, s3) \<Rightarrow>
                             apply_move g ai_player empty_squares move_index s3)))
           | _ \<Rightarrow> (Error_response 400 ''Missing required fields: grid, ai_player'', s)))"

definition ai_move :: "random_draws \<Rightarrow> request option \<Rightarrow> store \<Rightarrow> response \<times> store" where
  "ai_move = ai_move_with minimax"

section \<open>The outcome of a position\<close>

text \<open>The cells of a board: the list its grid refers to.\<close>

definition cells :: "Board \<Rightarrow> store \<Rightarrow> cell list" where
  "cells board s = lookup s (grid board)"

text \<open>A line is complete when its three cells are non-empty and equal.\<close>

definition line_complete :: "cell list \<Rightarrow> nat \<times> nat \<times> nat \<Rightarrow> bool" where
  "line_complete xs combo =
     (case combo of (c0, c1, c2) \<Rightarrow> xs ! c0 \<noteq> None \<and> xs ! c0 = xs ! c1 \<and> xs ! c1 = xs ! c2)"

text \<open>The three indices of a line are indices of the list.\<close>

definition combo_in_range :: "cell list \<Rightarrow> nat \<times> nat \<times> nat \<Rightarrow> bool" where
  "combo_in_range xs combo = (case combo of (c0, c1, c2) \<Rightarrow> c0 < length xs \<and> c1 < length xs \<and> c2 < length xs)"

lemma combo_wins_in_range:
  "combo_in_range xs combo \<Longrightarrow> combo_wins xs combo = Inr (line_complete xs combo)"
  by (auto simp: combo_in_range_def combo_wins_def line_complete_def list_get_def split: prod.splits)

lemma scan_combos_none:
  "\<forall>c \<in> set cs. combo_in_range xs c \<Longrightarrow> \<forall>j < length cs. \<not> line_complete xs (cs ! j) \<Longrightarrow>
     scan_combos xs k cs = Inr None"
proof (induction cs arbitrary: k)
  case Nil
  then show ?case by simp
next
  case (Cons c cs)
  from Cons.prems(2) have "\<not> line_complete xs c" by fastforce
  moreover have "\<forall>j < length cs. \<not> line_complete xs (cs ! j)"
    using Cons.prems(2) by fastforce
  ultimately show ?case
    using Cons.IH[of "Suc k"] Cons.prems(1) by (simp add: combo_wins_in_range)
qed

lemma scan_combos_first:
  "\<forall>c \<in> set cs. combo_in_range xs c \<Longrightarrow> i < length cs \<Longrightarrow> line_complete xs (cs ! i) \<Longrightarrow>
     \<forall>j < i. \<not> line_complete xs (cs ! j) \<Longrightarrow>
     scan_combos xs k cs = Inr (Some (k + i, xs ! fst (cs ! i)))"
proof (induction cs arbitrary: k i)
  case Nil
  then show ?case by simp
next
  case (Cons c cs)
  show ?case
  proof (cases i)
    case 0
    then show ?thesis
      using Cons.prems by (simp add: combo_wins_in_range)
  next
    case (Suc i')
    have "\<not> line_complete xs c"
      using Cons.prems(4) Suc by fastforce
    moreover have "\<forall>j < i'. \<not> line_complete xs (cs ! j)"
      using Cons.prems(4) Suc by fastforce
    ultimately show ?thesis
      using Cons.IH[of i' "Suc k"] Cons.prems(1,2,3) Suc by (simp add: combo_wins_in_range)
  qed
qed

lemma winning_combos_in_range:
  "9 \<le> length xs \<Longrightarrow> \<forall>c \<in> set winning_combos. combo_in_range xs c"
  by (auto simp: winning_combos_def combo_in_range_def)

lemma get_empty_squares_Nil:
  "get_empty_squares board None s = [] \<longleftrightarrow> None \<notin> set (cells board s)"
  by (auto simp: get_empty_squares_def cells_def grid_arg_def Let_def filter_empty_conv in_set_conv_nth)

lemma get_winner_first_line:
  assumes "length (cells board s) = 9" and "i < 8"
    and "line_complete (cells board s) (winning_combos ! i)"
    and "\<forall>j < i. \<not> line_complete (cells board s) (winning_combos ! j)"
  shows "get_winner board None s =
           Inr (cells board s ! fst (winning_combos ! i), board\<lparr>winning_index := Some i\<rparr>)"
    and "cells board s ! fst (winning_combos ! i) \<noteq> None"
proof -
  let ?xs = "cells board s"
  have "\<forall>c \<in> set winning_combos. combo_in_range ?xs c"
    using assms(1) by (intro winning_combos_in_range) simp
  moreover have "i < length winning_combos"
    using assms(2) by (simp add: winning_combos_def)
  ultimately have "scan_combos ?xs 0 winning_combos = Inr (Some (0 + i, ?xs ! fst (winning_combos ! i)))"
    using assms(3,4) by (intro scan_combos_first) simp_all
  then show "get_winner board None s =
           Inr (?xs ! fst (winning_combos ! i), board\<lparr>winning_index := Some i\<rparr>)"
    by (simp add: get_winner_def grid_arg_def cells_def)
  show "?xs ! fst (winning_combos ! i) \<noteq> None"
    using assms(3) by (auto simp: line_complete_def split: prod.splits)
qed

lemma get_winner_no_line:
  assumes "length (cells board s) = 9"
    and "\<forall>i < 8. \<not> line_complete (cells board s) (winning_combos ! i)"
  shows "get_winner board None s =
           (if None \<in> set (cells board s) then Inr (None, board)
            else Inr (Some DRAW, board\<lparr>winning_index := None\<rparr>))"
proof -
  let ?xs = "cells board s"
  have "\<forall>c \<in> set winning_combos. combo_in_range ?xs c"
    using assms(1) by (intro winning_combos_in_range) simp
  moreover have "length winning_combos = 8"
    by (simp add: winning_combos_def)
  ultimately have "scan_combos ?xs 0 winning_combos = Inr None"
    using assms(2) by (intro scan_combos_none) simp_all
  then show ?thesis
    using get_empty_squares_Nil[of board s]
    by (auto simp: get_winner_def grid_arg_def cells_def)
qed

text \<open>
  Claim C4. On a grid of nine cells, \<open>get_winner\<close> scans the eight lines in the order rows
  \<open>[0,1,2]\<close>, \<open>[3,4,5]\<close>, \<open>[6,7,8]\<close>, columns \<open>[0,3,6]\<close>, \<open>[1,4,7]\<close>, \<open>[2,5,8]\<close>,
  diagonals \<open>[0,4,8]\<close>, \<open>[2,4,6]\<close>. For the first line whose three cells are non-empty and
  equal it returns the mark on that line and records the index of the line in
  \<open>winning_index\<close>. When no line is complete and no cell is empty it returns \<open>DRAW\<close> and
  sets \<open>winning_index\<close> to \<open>None\<close>. Otherwise (no complete line, some empty cell) it returns
  \<open>None\<close>: the game goes on.
\<close>

theorem get_winner_outcome:
  assumes "length (cells board s) = 9"
  shows "winning_combos =
           [(0, 1, 2), (3, 4, 5), (6, 7, 8), (0, 3, 6), (1, 4, 7), (2, 5, 8), (0, 4, 8), (2, 4, 6)] \<and>
         (\<forall>i < 8. line_complete (cells board s) (winning_combos ! i) \<and>
                  (\<forall>j < i. \<not> line_complete (cells board s) (winning_combos ! j)) \<longrightarrow>
            get_winner board None s =
              Inr (cells board s ! fst (winning_combos ! i), board\<lparr>winning_index := Some i\<rparr>) \<and>
            cells board s ! fst (winning_combos ! i) \<noteq> None) \<and>
         ((\<forall>i < 8. \<not> line_complete (cells board s) (winning_combos ! i)) \<and>
            None \<notin> set (cells board s) \<longrightarrow>
            get_winner board None s = Inr (Some DRAW, board\<lparr>winning_index := None\<rparr>)) \<and>
         ((\<forall>i < 8. \<not> line_complete (cells board s) (winning_combos ! i)) \<and>
            None \<in> set (cells board s) \<longrightarrow>
            get_winner board None s = Inr (None, board))"
  using get_winner_first_line[OF assms] get_winner_no_line[OF assms]
  by (simp add: winning_combos_def)

theorem get_winner_outcome_witness:
  "get_winner \<lparr>grid = 0, winning_index = None\<rparr> None
      [[Some 2, Some 1, Some 2, Some 1, Some 1, Some 1, Some 2, Some 2, Some 2]] =
     Inr (Some 1, \<lparr>grid = 0, winning_index = Some 1\<rparr>)"
proof -
  let ?b = "\<lparr>grid = 0, winning_index = None\<rparr>"
  let ?s = "[[Some 2, Some 1, Some 2, Some 1, Some 1, Some 1, Some 2, Some 2, Some (2::int)]]"
  have cs: "cells ?b ?s = [Some 2, Some 1, Some 2, Some 1, Some 1, Some 1, Some 2, Some 2, Some 2]"
    by (simp add: cells_def lookup_def)
  have len: "length (cells ?b ?s) = 9"
    by (simp add: cs)
  have line: "line_complete (cells ?b ?s) (winning_combos ! 1) \<and>
      (\<forall>j < 1. \<not> line_complete (cells ?b ?s) (winning_combos ! j))"
    by (simp add: cs line_complete_def winning_combos_def)
  have "get_winner ?b None ?s =
      Inr (cells ?b ?s ! fst (winning_combos ! 1), ?b\<lparr>winning_index := Some 1\<rparr>)"
    using get_winner_outcome[OF len] line by (meson one_less_numeral_iff semiring_norm(76))
  then show ?thesis
    by (simp add: cs winning_combos_def)
qed

section \<open>Placing a mark and cloning\<close>

lemma py_index_nat: "0 \<le> i \<Longrightarrow> i < int n \<Longrightarrow> py_index n i = Some (nat i)"
  by (simp add: py_index_def)

lemma make_move_other:
  "a \<noteq> grid board \<Longrightarrow> lookup (snd (make_move board square player s)) a = lookup s a"
  by (auto simp: make_move_def lookup_def Let_def split: option.splits)

lemma make_move_length: "length (snd (make_move board square player s)) = length s"
  by (auto simp: make_move_def Let_def split: option.splits)

text \<open>
  Claim C7. On a board of nine cells and for an index from 0 to 8, \<open>make_move\<close> raises
  nothing; it puts the player's mark at the index when the cell there is empty and leaves
  that cell as it is when it is occupied; every other cell of the board keeps its value.
\<close>

theorem make_move_cells:
  assumes "grid board < length s" and "length (cells board s) = 9"
    and "0 \<le> square" and "square < 9"
  shows "fst (make_move board square player s) = Inr () \<and>
         length (cells board (snd (make_move board square player s))) = 9 \<and>
         cells board (snd (make_move board square player s)) ! nat square =
           (if cells board s ! nat square = None then Some player else cells board s ! nat square) \<and>
         (\<forall>i < 9. i \<noteq> nat square \<longrightarrow>
            cells board (snd (make_move board square player s)) ! i = cells board s ! i)"
proof -
  let ?xs = "lookup s (grid board)"
  have len: "length ?xs = 9"
    using assms(2) by (simp add: cells_def)
  have idx: "py_index (length ?xs) square = Some (nat square)"
    using assms(3,4) len by (intro py_index_nat) simp_all
  have k: "nat square < length ?xs"
    using assms(3,4) len by simp
  show ?thesis
  proof (cases "?xs ! nat square = None")
    case True
    then have "make_move board square player s =
        (Inr (), s[grid board := ?xs[nat square := Some player]])"
      by (simp add: make_move_def idx)
    then show ?thesis
      using assms(1) len k True by (simp add: cells_def lookup_def)
  next
    case False
    then have "make_move board square player s = (Inr (), s)"
      by (auto simp: make_move_def idx)
    then show ?thesis
      using False by (simp add: cells_def len)
  qed
qed

theorem make_move_cells_witness:
  "make_move \<lparr>grid = 0, winning_index = None\<rparr> 4 2
      [[Some 1, None, None, None, None, None, None, None, None]] =
     (Inr (), [[Some 1, None, None, None, Some 2, None, None, None, None]])"
proof -
  let ?b = "\<lparr>grid = 0, winning_index = None\<rparr>"
  let ?s = "[[Some (1::int), None, None, None, None, None, None, None, None]]"
  let ?r = "make_move ?b 4 2 ?s"
  have cs: "cells ?b ?s = [Some 1, None, None, None, None, None, None, None, None]"
    by (simp add: cells_def lookup_def)
  have h: "grid ?b < length ?s" "length (cells ?b ?s) = 9" "(0::int) \<le> 4" "(4::int) < 9"
    by (simp_all add: cs)
  have "fst ?r = Inr ()"
    using make_move_cells[OF h, of 2] by simp
  moreover have "snd ?r = [[Some 1, None, None, None, Some 2, None, None, None, None]]"
    by (simp add: make_move_def lookup_def py_index_def)
  ultimately show ?thesis
    by (simp add: prod_eq_iff)
qed

text \<open>A sequence of \<open>make_move\<close> calls on one board, each given as (square, player); a call
  that raises leaves the store as it is.\<close>

fun make_moves :: "Board \<Rightarrow> (int \<times> int) list \<Rightarrow> store \<Rightarrow> store" where
  "make_moves board [] s = s"
| "make_moves board ((square, player) # rest) s =
     make_moves board rest (snd (make_move board square player s))"

lemma make_moves_other:
  "a \<noteq> grid board \<Longrightarrow> lookup (make_moves board moves s) a = lookup s a"
  by (induction board moves s rule: make_moves.induct) (simp_all add: make_move_other)

text \<open>
  Claim C8. \<open>clone\<close> gives a board whose cells equal the original's and whose
  \<open>winning_index\<close> is \<open>None\<close>, whatever the original's was; the original's cells are as
  before, and they stay so after any sequence of \<open>make_move\<close> calls on the clone.
\<close>

theorem clone_independent:
  assumes "grid board < length s"
  shows "cells (fst (clone board s)) (snd (clone board s)) = cells board s \<and>
         winning_index (fst (clone board s)) = None \<and>
         cells board (snd (clone board s)) = cells board s \<and>
         (\<forall>moves. cells board (make_moves (fst (clone board s)) moves (snd (clone board s))) =
                   cells board s)"
proof -
  have ne: "grid board \<noteq> grid (fst (clone board s))"
    using assms by (simp add: clone_eq)
  have same: "cells board (snd (clone board s)) = cells board s"
    using assms by (simp add: clone_eq cells_def lookup_def nth_append)
  have "cells board (make_moves (fst (clone board s)) moves (snd (clone board s))) = cells board s"
    for moves
    using make_moves_other[OF ne, of moves "snd (clone board s)"] same by (simp add: cells_def)
  then show ?thesis
    using same by (simp add: clone_eq cells_def lookup_fresh)
qed

theorem clone_independent_witness:
  "cells \<lparr>grid = 0, winning_index = Some 3\<rparr>
     (make_moves (fst (clone \<lparr>grid = 0, winning_index = Some 3\<rparr> [[Some 1, None, None, Some 1, None, Some 2, Some 1, None, Some 2]]))
        [(1, 2), (4, 1)]
        (snd (clone \<lparr>grid = 0, winning_index = Some 3\<rparr> [[Some 1, None, None, Some 1, None, Some 2, Some 1, None, Some 2]]))) =
   [Some 1, None, None, Some 1, None, Some 2, Some 1, None, Some 2] \<and>
   winning_index (fst (clone \<lparr>grid = 0, winning_index = Some 3\<rparr> [[Some 1, None, None, Some 1, None, Some 2, Some 1, None, Some 2]])) = None"
proof -
  let ?b = "\<lparr>grid = 0, winning_index = Some 3\<rparr>"
  let ?s = "[[Some (1::int), None, None, Some 1, None, Some 2, Some 1, None, Some 2]]"
  have h: "grid ?b < length ?s"
    by simp
  have cs: "cells ?b ?s = [Some 1, None, None, Some 1, None, Some 2, Some 1, None, Some 2]"
    by (simp add: cells_def lookup_def)
  show ?thesis
    using clone_independent[OF h] cs by (simp del: make_moves.simps)
qed

section \<open>Validation of a move request\<close>

definition valid_mode :: "string option \<Rightarrow> bool" where
  "valid_mode m \<longleftrightarrow> m \<in> {None, Some ''easy'', Some ''medium'', Some ''difficult''}"

lemma get_empty_squares_fresh_copy:
  "get_empty_squares \<lparr>grid = length s, winning_index = w\<rparr> None (s @ [xs]) =
     filter (\<lambda>i. xs ! i = None) [0..<length xs]"
  by (simp add: get_empty_squares_def grid_arg_def lookup_fresh)

lemma filter_empty_squares_Nil:
  "filter (\<lambda>i. xs ! i = None) [0..<length xs] = [] \<longleftrightarrow> None \<notin> set xs"
  by (auto simp: filter_empty_conv in_set_conv_nth)

text \<open>
  Claim C6. A request whose grid does not have nine elements is refused with
  \<open>Grid must have exactly 9 elements\<close>, and a request with a grid of nine cells none of
  which is empty (and a valid player and mode) is refused with \<open>No valid moves available\<close>.
  Both are status 400, and both results are the same for every search procedure put in
  the place of \<open>minimax\<close>: the request is refused before any search.
\<close>

theorem ai_move_validation:
  assumes "req_grid d = Some g" and "req_ai_player d = Some ai_player"
  shows "(length (lookup s g) \<noteq> 9 \<longrightarrow>
            ai_move rnd (Some d) s = (Error_response 400 ''Grid must have exactly 9 elements'', s) \<and>
            (\<forall>search. ai_move_with search rnd (Some d) s = ai_move rnd (Some d) s)) \<and>
         (length (lookup s g) = 9 \<and> None \<notin> set (lookup s g) \<and>
          ai_player \<in> {PLAYER_X, PLAYER_O} \<and> valid_mode (req_mode d) \<longrightarrow>
            ai_move rnd (Some d) s =
              (Error_response 400 ''No valid moves available'', s @ [lookup s g]) \<and>
            (\<forall>search. ai_move_with search rnd (Some d) s = ai_move rnd (Some d) s))"
proof -
  have short: "ai_move_with search rnd (Some d) s =
      (Error_response 400 ''Grid must have exactly 9 elements'', s)"
    if "length (lookup s g) \<noteq> 9" for search
    using that assms by (simp add: ai_move_with_def)
  have full: "ai_move_with search rnd (Some d) s =
      (Error_response 400 ''No valid moves available'', s @ [lookup s g])"
    if "length (lookup s g) = 9" "None \<notin> set (lookup s g)"
      "ai_player \<in> {PLAYER_X, PLAYER_O}" "valid_mode (req_mode d)" for search
  proof -
    have "filter (\<lambda>i. lookup s g ! i = None) [0..<length (lookup s g)] = []"
      using that(2) by (simp only: filter_empty_squares_Nil) simp
    then show ?thesis
      using that assms
      by (auto simp: ai_move_with_def requested_mode_def valid_mode_def GAME_MODES_def
          list_copy_def alloc_def Board_init_def get_empty_squares_fresh_copy)
  qed
  show ?thesis
    using short full by (simp add: ai_move_def)
qed

theorem ai_move_validation_witness:
  "ai_move \<lparr>drawn_nat = 5, drawn_below_half = False\<rparr>
      (Some \<lparr>req_grid = Some 0, req_ai_player = Some 2, req_mode = Some ''difficult''\<rparr>)
      [[Some 1, Some 2, Some 1, Some 1, Some 2, Some 2, Some 2, Some 1, Some 1]] =
     (Error_response 400 ''No valid moves available'',
      [[Some 1, Some 2, Some 1, Some 1, Some 2, Some 2, Some 2, Some 1, Some 1],
       [Some 1, Some 2, Some 1, Some 1, Some 2, Some 2, Some 2, Some 1, Some 1]]) \<and>
   ai_move \<lparr>drawn_nat = 5, drawn_below_half = False\<rparr>
      (Some \<lparr>req_grid = Some 0, req_ai_player = Some 2, req_mode = Some ''difficult''\<rparr>)
      [[Some 1, None, None, None, None, None, None]] =
     (Error_response 400 ''Grid must have exactly 9 elements'',
      [[Some 1, None, None, None, None, None, None]])"
proof -
  let ?d = "\<lparr>req_grid = Some 0, req_ai_player = Some 2, req_mode = Some ''difficult''\<rparr>"
  let ?rnd = "\<lparr>drawn_nat = 5, drawn_below_half = False\<rparr>"
  have h: "req_grid ?d = Some 0" "req_ai_player ?d = Some 2"
    by simp_all
  show ?thesis
    using ai_move_validation[OF h, of "[[Some 1, Some 2, Some 1, Some 1, Some 2, Some 2, Some 2, Some 1, Some 1]]" ?rnd]
      ai_move_validation[OF h, of "[[Some 1, None, None, None, None, None, None]]" ?rnd]
    by (simp add: lookup_def valid_mode_def PLAYER_O_def)
qed

section \<open>Valid positions and the value of the search\<close>

text \<open>
  The positions of the game: nine cells, each empty or marked by one of the two players,
  and one of the two players to move.
\<close>

definition valid_grid :: "cell list \<Rightarrow> bool" where
  "valid_grid xs \<longleftrightarrow> length xs = 9 \<and> set xs \<subseteq> {None, Some PLAYER_X, Some PLAYER_O}"

text \<open>The two players.\<close>

definition valid_player :: "int \<Rightarrow> bool" where
  "valid_player p \<longleftrightarrow> p = PLAYER_X \<or> p = PLAYER_O"

text \<open>The empty squares and the winner of a list of cells, as \<open>get_empty_squares\<close> and
  \<open>get_winner\<close> compute them for a board with these cells.\<close>

definition empties :: "cell list \<Rightarrow> nat list" where
  "empties xs = filter (\<lambda>i. xs ! i = None) [0..<length xs]"

definition winner_of :: "cell list \<Rightarrow> cell" where
  "winner_of xs =
     (case scan_combos xs 0 winning_combos of
        Inr (Some (i, w)) \<Rightarrow> w
      | _ \<Rightarrow> if empties xs = [] then Some DRAW else None)"

text \<open>\<open>SCORES[p]\<close> for a key that is in the dictionary.\<close>

definition sign_of :: "int \<Rightarrow> int" where
  "sign_of p = (case SCORES p of Some m \<Rightarrow> m | None \<Rightarrow> 0)"

text \<open>One iteration of the loop on its two variables, for a square whose score is
  \<open>f sq\<close>.\<close>

definition best_step :: "(nat \<Rightarrow> int) \<Rightarrow> nat \<Rightarrow> int \<times> nat option \<Rightarrow> int \<times> nat option" where
  "best_step f sq acc = (if fst acc \<le> f sq then (f sq, Some sq) else acc)"

lemma empties_decrease:
  assumes "sq \<in> set (empties xs)"
  shows "length (filter (\<lambda>c. c = None) (xs[sq := Some p])) < length (filter (\<lambda>c. c = None) xs)"
  using assms by (intro filter_update_less) (simp_all add: empties_def)

text \<open>
  The search seen on cell values alone: what \<open>minimax\<close> computes does not depend on where
  the lists are stored. \<open>search_value\<close> follows the same recursion on the cells, with the
  loop as a fold of \<open>best_step\<close>; it serves the proofs about \<open>minimax\<close>, which is shown
  below to return this value on every valid position.
\<close>

function search_value :: "cell list \<Rightarrow> int \<Rightarrow> int \<times> nat option" where
  "search_value xs p =
     (case winner_of xs of
        Some w \<Rightarrow> (sign_of w, None)
      | None \<Rightarrow>
          (case fold (\<lambda>sq acc.
                  if fst acc \<le> sign_of p * fst (search_value (xs[sq := Some p]) (switch_player p))
                  then (sign_of p * fst (search_value (xs[sq := Some p]) (switch_player p)), Some sq)
                  else acc)
                (empties xs) (- 1, None) of
             (max_score, best_move) \<Rightarrow> (sign_of p * max_score, best_move)))"
  by pat_completeness auto
termination
  by (relation "measure (\<lambda>(xs, p). length (filter (\<lambda>c. c = None) xs))")
     (simp_all add: empties_decrease)

declare search_value.simps [simp del]

text \<open>The score of a square in the loop: the value of the position after the move, with
  the sign of the player who moves.\<close>

definition child_score :: "cell list \<Rightarrow> int \<Rightarrow> nat \<Rightarrow> int" where
  "child_score xs p sq = sign_of p * fst (search_value (xs[sq := Some p]) (switch_player p))"

lemma search_value_unfold:
  "search_value xs p =
     (case winner_of xs of
        Some w \<Rightarrow> (sign_of w, None)
      | None \<Rightarrow>
          (case fold (best_step (child_score xs p)) (empties xs) (- 1, None) of
             (max_score, best_move) \<Rightarrow> (sign_of p * max_score, best_move)))"
proof -
  have eq: "(\<lambda>sq acc.
                  if fst acc \<le> sign_of p * fst (search_value (xs[sq := Some p]) (switch_player p))
                  then (sign_of p * fst (search_value (xs[sq := Some p]) (switch_player p)), Some sq)
                  else acc) = best_step (child_score xs p)"
    by (intro ext) (simp add: best_step_def child_score_def)
  show ?thesis
    by (subst search_value.simps, subst eq) (rule refl)
qed

lemma scan_combos_total:
  "\<forall>c \<in> set cs. combo_in_range xs c \<Longrightarrow> \<exists>r. scan_combos xs k cs = Inr r"
  by (induction cs arbitrary: k) (auto simp: combo_wins_in_range split: bool.splits)

lemma scan_combos_Some_cell:
  "\<forall>c \<in> set cs. combo_in_range xs c \<Longrightarrow> scan_combos xs k cs = Inr (Some (i, w)) \<Longrightarrow>
     w \<in> set xs \<and> w \<noteq> None"
proof (induction cs arbitrary: k)
  case Nil
  then show ?case by simp
next
  case (Cons c cs)
  obtain c0 c1 c2 where c: "c = (c0, c1, c2)"
    by (cases c) auto
  show ?case
  proof (cases "line_complete xs c")
    case True
    then have "xs ! c0 \<noteq> None" "c0 < length xs"
      using Cons.prems(1) by (auto simp: c line_complete_def combo_in_range_def)
    moreover have "w = xs ! c0"
      using Cons.prems True by (simp add: combo_wins_in_range c)
    ultimately show ?thesis
      by simp
  next
    case False
    then show ?thesis
      using Cons.prems Cons.IH[of "Suc k"] by (simp add: combo_wins_in_range)
  qed
qed

lemma get_empty_squares_empties: "get_empty_squares board None s = empties (cells board s)"
  by (simp add: get_empty_squares_def empties_def cells_def grid_arg_def Let_def)

lemma get_winner_winner_of:
  assumes "9 \<le> length (cells board s)"
  shows "\<exists>b'. get_winner board None s = Inr (winner_of (cells board s), b') \<and> grid b' = grid board"
proof -
  obtain r where r: "scan_combos (cells board s) 0 winning_combos = Inr r"
    using scan_combos_total[OF winning_combos_in_range[OF assms]] by blast
  show ?thesis
  proof (cases r)
    case None
    then show ?thesis
      using r get_empty_squares_empties[of board s]
      by (auto simp: get_winner_def winner_of_def cells_def grid_arg_def)
  next
    case (Some iw)
    then show ?thesis
      using r by (cases iw) (auto simp: get_winner_def winner_of_def cells_def grid_arg_def)
  qed
qed

lemma SCORES_valid_player: "valid_player p \<Longrightarrow> SCORES p = Some (sign_of p)"
  by (auto simp: valid_player_def sign_of_def SCORES_def PLAYER_X_def PLAYER_O_def DRAW_def)

lemma sign_of_simps:
  "sign_of PLAYER_X = 1" "sign_of PLAYER_O = - 1" "sign_of DRAW = 0"
  by (simp_all add: sign_of_def SCORES_def PLAYER_X_def PLAYER_O_def DRAW_def)

lemma winner_of_valid:
  assumes "valid_grid xs" and "winner_of xs = Some w"
  shows "w = DRAW \<or> w = PLAYER_X \<or> w = PLAYER_O"
proof -
  have rng: "\<forall>c \<in> set winning_combos. combo_in_range xs c"
    using assms(1) by (intro winning_combos_in_range) (simp add: valid_grid_def)
  obtain r where r: "scan_combos xs 0 winning_combos = Inr r"
    using scan_combos_total[OF rng] by blast
  show ?thesis
  proof (cases r)
    case None
    then show ?thesis
      using r assms(2) by (auto simp: winner_of_def split: if_splits)
  next
    case (Some iw)
    obtain i c where iw: "iw = (i, c)"
      by (cases iw) auto
    have "c \<in> set xs \<and> c \<noteq> None"
      using scan_combos_Some_cell[OF rng] r Some iw by simp
    moreover have "c = Some w"
      using r Some iw assms(2) by (simp add: winner_of_def)
    ultimately show ?thesis
      using assms(1) by (auto simp: valid_grid_def)
  qed
qed

lemma SCORES_winner_of:
  "valid_grid xs \<Longrightarrow> winner_of xs = Some w \<Longrightarrow> SCORES w = Some (sign_of w)"
  using winner_of_valid[of xs w]
  by (auto simp: sign_of_def SCORES_def PLAYER_X_def PLAYER_O_def DRAW_def)

lemma valid_grid_update:
  "valid_grid xs \<Longrightarrow> valid_player p \<Longrightarrow> valid_grid (xs[sq := Some p])"
  by (auto simp: valid_grid_def valid_player_def dest!: subsetD[OF set_update_subset_insert])

lemma valid_player_switch: "valid_player (switch_player p)"
  by (simp add: valid_player_def switch_player_def)

lemma empties_in_range: "sq \<in> set (empties xs) \<Longrightarrow> sq < length xs \<and> xs ! sq = None"
  by (simp add: empties_def)

lemma minimax_frame: "store_le s (snd (snd (minimax board player s)))"
  by (rule minimax_frame_dom(1)[OF spec[OF minimax_total]])

lemma minimax_loop_frame:
  "store_le s (snd (minimax_loop board player multiplier squares max_score best_move s))"
  by (rule minimax_frame_dom(2)[OF spec[OF minimax_total]])

lemma cells_store_le: "store_le s s' \<Longrightarrow> grid board < length s \<Longrightarrow> cells board s' = cells board s"
  by (simp add: cells_def store_le_lookup)

lemma minimax_refines_aux:
  "grid board < length s \<longrightarrow> valid_grid (cells board s) \<longrightarrow> valid_player player \<longrightarrow>
     fst (minimax board player s) = Inr (search_value (cells board s) player)"
  "grid board < length s \<longrightarrow> valid_grid (cells board s) \<longrightarrow> valid_player player \<longrightarrow>
     multiplier = sign_of player \<longrightarrow> set squares \<subseteq> set (empties (cells board s)) \<longrightarrow>
     fst (minimax_loop board player multiplier squares max_score best_move s) =
       Inr (fold (best_step (child_score (cells board s) player)) squares (max_score, best_move))"
proof (induct board player s and board player multiplier squares max_score best_move s
    rule: minimax_minimax_loop.induct)
  case (1 board player s)
  show ?case
  proof (intro impI)
    assume a: "grid board < length s" and v: "valid_grid (cells board s)" and p: "valid_player player"
    let ?xs = "cells board s"
    have sp: "SCORES player = Some (sign_of player)"
      using p by (rule SCORES_valid_player)
    obtain b' where gw: "get_winner board None s = Inr (winner_of ?xs, b')" and gb: "grid b' = grid board"
      using get_winner_winner_of[of board s] v by (auto simp: valid_grid_def)
    have cb: "cells b' s = ?xs"
      using gb by (simp add: cells_def)
    show "fst (minimax board player s) = Inr (search_value ?xs player)"
    proof (cases "winner_of ?xs")
      case (Some w)
      then show ?thesis
        using sp gw SCORES_winner_of[OF v Some]
        by (simp add: search_value_unfold)
    next
      case None
      have "fst (minimax_loop b' player (sign_of player) (get_empty_squares b' None s) (- 1) None s) =
          Inr (fold (best_step (child_score (cells b' s) player)) (get_empty_squares b' None s) (- 1, None))"
        using 1[of "sign_of player" "(winner_of ?xs, b')" "winner_of ?xs" b'] sp gw None a v p gb cb
        by (simp add: get_empty_squares_empties)
      then show ?thesis
        using sp gw None cb
        by (auto simp: search_value_unfold get_empty_squares_empties split: prod.splits sum.splits)
    qed
  qed
next
  case (2 board player multiplier max_score best_move s)
  show ?case by simp
next
  case (3 board player multiplier square rest max_score best_move s)
  show ?case
  proof (intro impI)
    assume a: "grid board < length s" and v: "valid_grid (cells board s)" and p: "valid_player player"
      and m: "multiplier = sign_of player"
      and sub: "set (square # rest) \<subseteq> set (empties (cells board s))"
    let ?xs = "cells board s"
    let ?c = "\<lparr>grid = length s, winning_index = None\<rparr>"
    let ?f = "child_score ?xs player"
    have sq: "square < length ?xs" "?xs ! square = None"
      using sub empties_in_range[of square ?xs] by simp_all
    define s2 where "s2 = s @ [?xs[square := Some player]]"
    have cl: "clone board s = (?c, s @ [?xs])"
      by (simp add: clone_eq cells_def)
    have mv: "make_move ?c (int square) player (s @ [?xs]) = (Inr (), s2)"
      using sq by (simp add: make_move_fresh s2_def)
    have cc: "cells ?c s2 = ?xs[square := Some player]"
      by (simp add: cells_def s2_def lookup_fresh)
    have le2: "store_le s s2"
      by (simp add: s2_def store_le_def)
    obtain r b3 s3 where res: "minimax ?c (switch_player player) s2 = (r, b3, s3)"
      by (cases "minimax ?c (switch_player player) s2") auto
    have "fst (minimax ?c (switch_player player) s2) =
        Inr (search_value (cells ?c s2) (switch_player player))"
      using 3(1)[of ?c "s @ [?xs]" "Inr ()" s2 "()"] cl mv cc valid_grid_update[OF v p]
        valid_player_switch[of player]
      by (simp add: s2_def)
    then have r: "r = Inr (search_value (?xs[square := Some player]) (switch_player player))"
      using res cc by simp
    obtain cs cm where sv: "search_value (?xs[square := Some player]) (switch_player player) = (cs, cm)"
      by (cases "search_value (?xs[square := Some player]) (switch_player player)") auto
    have score: "multiplier * cs = ?f square"
      using sv m by (simp add: child_score_def)
    have le3: "store_le s s3"
      using minimax_frame[of s2 ?c "switch_player player"] res le2 by (auto intro: store_le_trans)
    have c3: "cells board s3 = ?xs"
      using le3 a by (rule cells_store_le)
    have a3: "grid board < length s3"
      using a store_le_length[OF le3] by simp
    have sub': "set rest \<subseteq> set (empties (cells board s3))"
      using sub c3 by simp
    show "fst (minimax_loop board player multiplier (square # rest) max_score best_move s) =
        Inr (fold (best_step ?f) (square # rest) (max_score, best_move))"
    proof (cases "max_score \<le> multiplier * cs")
      case True
      have "fst (minimax_loop board player multiplier rest (multiplier * cs) (Some square) s3) =
          Inr (fold (best_step (child_score (cells board s3) player)) rest (multiplier * cs, Some square))"
        using 3(2)[of ?c "s @ [?xs]" "Inr ()" s2 "()" r "(b3, s3)" "(cs, cm)" cs cm b3 s3 "multiplier * cs"]
          cl mv res r sv True a3 c3 v p m sub'
        by simp
      then show ?thesis
        using cl mv res r sv True c3 score
        by (simp add: best_step_def)
    next
      case False
      have "fst (minimax_loop board player multiplier rest max_score best_move s3) =
          Inr (fold (best_step (child_score (cells board s3) player)) rest (max_score, best_move))"
        using 3(3)[of ?c "s @ [?xs]" "Inr ()" s2 "()" r "(b3, s3)" "(cs, cm)" cs cm b3 s3 "multiplier * cs"]
          cl mv res r sv False a3 c3 v p m sub'
        by simp
      then show ?thesis
        using cl mv res r sv False c3 score
        by (simp add: best_step_def)
    qed
  qed
qed

section \<open>What the loop keeps\<close>

text \<open>The loop replaces its best move whenever the new score is at least the best so far,
  so among the squares with the greatest score it ends with the last one visited.\<close>

lemma fold_best_step_range:
  "fst (fold (best_step f) xs acc) \<in> insert (fst acc) (f ` set xs)"
proof (induction xs arbitrary: acc)
  case Nil
  then show ?case by simp
next
  case (Cons x xs)
  show ?case
    using Cons.IH[of "best_step f x acc"] by (auto simp: best_step_def split: if_splits)
qed

lemma fold_best_step_below:
  assumes "\<forall>x \<in> set xs. f x < m0"
  shows "fold (best_step f) xs (m0, b0) = (m0, b0)"
  using assms by (induction xs) (simp_all add: best_step_def)

lemma fold_best_step_last:
  assumes "sorted_wrt (<) xs" and "\<exists>x \<in> set xs. m0 \<le> f x"
  shows "\<exists>y \<in> set xs. fold (best_step f) xs (m0, b0) = (f y, Some y) \<and>
           (\<forall>x \<in> set xs. f x \<le> f y) \<and> (\<forall>x \<in> set xs. f x = f y \<longrightarrow> x \<le> y)"
  using assms
proof (induction xs rule: rev_induct)
  case Nil
  then show ?case by simp
next
  case (snoc z xs)
  have srt: "sorted_wrt (<) xs" and zmax: "\<forall>x \<in> set xs. x < z"
    using snoc.prems(1) by (simp_all add: sorted_wrt_append)
  show ?case
  proof (cases "\<exists>x \<in> set xs. m0 \<le> f x")
    case True
    then obtain y where y: "y \<in> set xs" "fold (best_step f) xs (m0, b0) = (f y, Some y)"
      "\<forall>x \<in> set xs. f x \<le> f y" "\<forall>x \<in> set xs. f x = f y \<longrightarrow> x \<le> y"
      using snoc.IH[OF srt] by blast
    show ?thesis
    proof (cases "f y \<le> f z")
      case True
      then have "fold (best_step f) (xs @ [z]) (m0, b0) = (f z, Some z)"
        using y(2) by (simp add: best_step_def)
      moreover have "\<forall>x \<in> set (xs @ [z]). f x \<le> f z"
        using y(3) True by auto
      moreover have "\<forall>x \<in> set (xs @ [z]). f x = f z \<longrightarrow> x \<le> z"
        using zmax by auto
      ultimately show ?thesis
        by auto
    next
      case False
      then have "fold (best_step f) (xs @ [z]) (m0, b0) = (f y, Some y)"
        using y(2) by (simp add: best_step_def)
      moreover have "\<forall>x \<in> set (xs @ [z]). f x \<le> f y"
        using y(3) False by auto
      moreover have "\<forall>x \<in> set (xs @ [z]). f x = f y \<longrightarrow> x \<le> y"
        using y(4) False by auto
      ultimately show ?thesis
        using y(1) by auto
    qed
  next
    case False
    then have low: "\<forall>x \<in> set xs. f x < m0"
      by auto
    then have z: "m0 \<le> f z"
      using snoc.prems(2) by auto
    have "fold (best_step f) (xs @ [z]) (m0, b0) = (f z, Some z)"
      using fold_best_step_below[OF low, of b0] z by (simp add: best_step_def)
    moreover have "\<forall>x \<in> set (xs @ [z]). f x \<le> f z"
      using low z by auto
    moreover have "\<forall>x \<in> set (xs @ [z]). f x = f z \<longrightarrow> x \<le> z"
      using zmax by auto
    ultimately show ?thesis
      by auto
  qed
qed

lemma sorted_empties: "sorted_wrt (<) (empties xs)"
  by (simp add: empties_def sorted_wrt_filter)

lemma sign_of_valid_player: "valid_player p \<Longrightarrow> sign_of p = 1 \<or> sign_of p = - 1"
  by (auto simp: valid_player_def sign_of_simps)

lemma sign_of_switch: "valid_player p \<Longrightarrow> sign_of (switch_player p) = - sign_of p"
  by (auto simp: valid_player_def switch_player_def sign_of_def SCORES_def PLAYER_X_def PLAYER_O_def DRAW_def)

lemma search_value_range:
  "valid_grid xs \<Longrightarrow> valid_player p \<Longrightarrow> fst (search_value xs p) \<in> {- 1, 0, 1}"
proof (induction xs p rule: search_value.induct)
  case (1 xs p)
  show ?case
  proof (cases "winner_of xs")
    case (Some w)
    then show ?thesis
      using winner_of_valid[OF "1.prems"(1) Some]
      by (auto simp: search_value_unfold sign_of_simps)
  next
    case None
    have child: "child_score xs p sq \<in> {- 1, 0, 1}" if "sq \<in> set (empties xs)" for sq
    proof -
      have "fst (search_value (xs[sq := Some p]) (switch_player p)) \<in> {- 1, 0, 1}"
        using "1.IH"[OF None that] valid_grid_update[OF "1.prems"] valid_player_switch by simp
      then show ?thesis
        using sign_of_valid_player[OF "1.prems"(2)] by (auto simp: child_score_def)
    qed
    obtain m b where fb: "fold (best_step (child_score xs p)) (empties xs) (- 1, None) = (m, b)"
      by (cases "fold (best_step (child_score xs p)) (empties xs) (- 1, None)") auto
    have "m \<in> insert (- 1) (child_score xs p ` set (empties xs))"
      using fold_best_step_range[of "child_score xs p" "empties xs" "(- 1, None)"] fb by simp
    then have "m \<in> {- 1, 0, 1}"
      using child by auto
    then show ?thesis
      using None fb sign_of_valid_player[OF "1.prems"(2)] by (auto simp: search_value_unfold)
  qed
qed

lemma child_score_range:
  "valid_grid xs \<Longrightarrow> valid_player p \<Longrightarrow> child_score xs p sq \<in> {- 1, 0, 1}"
  using search_value_range[OF valid_grid_update[of xs p sq] valid_player_switch[of p]]
    sign_of_valid_player[of p]
  by (auto simp: child_score_def)

lemma winner_of_None_empties:
  assumes "valid_grid xs" and "winner_of xs = None"
  shows "empties xs \<noteq> []"
proof -
  have rng: "\<forall>c \<in> set winning_combos. combo_in_range xs c"
    using assms(1) by (intro winning_combos_in_range) (simp add: valid_grid_def)
  obtain r where r: "scan_combos xs 0 winning_combos = Inr r"
    using scan_combos_total[OF rng] by blast
  show ?thesis
  proof (cases r)
    case None
    then show ?thesis
      using r assms(2) by (auto simp: winner_of_def split: if_splits)
  next
    case (Some iw)
    obtain i c where iw: "iw = (i, c)"
      by (cases iw) auto
    have "c \<noteq> None"
      using scan_combos_Some_cell[OF rng] r Some iw by simp
    then show ?thesis
      using r Some iw assms(2) by (simp add: winner_of_def)
  qed
qed

lemma search_value_terminal:
  "winner_of xs = Some w \<Longrightarrow> search_value xs p = (sign_of w, None)"
  by (simp add: search_value_unfold)

lemma search_value_move:
  assumes "valid_grid xs" and "valid_player p" and "winner_of xs = None"
  shows "\<exists>y \<in> set (empties xs).
           search_value xs p = (sign_of p * child_score xs p y, Some y) \<and>
           (\<forall>x \<in> set (empties xs). child_score xs p x \<le> child_score xs p y) \<and>
           (\<forall>x \<in> set (empties xs). child_score xs p x = child_score xs p y \<longrightarrow> x \<le> y)"
proof -
  obtain x where "x \<in> set (empties xs)"
    using winner_of_None_empties[OF assms(1,3)] by (cases "empties xs") auto
  moreover have "- 1 \<le> child_score xs p x"
    using child_score_range[OF assms(1,2), of x] by auto
  ultimately have "\<exists>x \<in> set (empties xs). - 1 \<le> child_score xs p x"
    by blast
  from fold_best_step_last[OF sorted_empties this, of None]
  show ?thesis
    using assms(3) by (auto simp: search_value_unfold)
qed

section \<open>The move returned by the search\<close>

text \<open>A position is terminal when one of the eight lines is complete or no cell is empty.\<close>

definition terminal :: "cell list \<Rightarrow> bool" where
  "terminal xs \<longleftrightarrow> (\<exists>c \<in> set winning_combos. line_complete xs c) \<or> None \<notin> set xs"

lemma empties_Nil: "empties xs = [] \<longleftrightarrow> None \<notin> set xs"
  by (simp add: empties_def filter_empty_squares_Nil)

lemma first_complete_line:
  assumes "c \<in> set cs" and "line_complete xs c"
  shows "\<exists>i < length cs. line_complete xs (cs ! i) \<and> (\<forall>j < i. \<not> line_complete xs (cs ! j))"
proof -
  obtain k where k: "k < length cs" "line_complete xs (cs ! k)"
    using assms by (auto simp: in_set_conv_nth)
  define i where "i = (LEAST n. n < length cs \<and> line_complete xs (cs ! n))"
  have "i < length cs \<and> line_complete xs (cs ! i)"
    unfolding i_def using k by (intro LeastI[of "\<lambda>n. n < length cs \<and> line_complete xs (cs ! n)" k]) simp
  moreover have "\<not> line_complete xs (cs ! j)" if "j < i" for j
  proof
    assume "line_complete xs (cs ! j)"
    moreover have "j < length cs"
      using that \<open>i < length cs \<and> line_complete xs (cs ! i)\<close> by simp
    ultimately have "i \<le> j"
      unfolding i_def by (intro Least_le) simp
    then show False
      using that by simp
  qed
  ultimately show ?thesis
    by blast
qed

lemma winner_of_terminal:
  assumes "length xs = 9"
  shows "winner_of xs \<noteq> None \<longleftrightarrow> terminal xs"
proof (cases "\<exists>c \<in> set winning_combos. line_complete xs c")
  case True
  then obtain i where i: "i < length winning_combos" "line_complete xs (winning_combos ! i)"
    "\<forall>j < i. \<not> line_complete xs (winning_combos ! j)"
    using first_complete_line[of _ winning_combos xs] by blast
  have rng: "\<forall>c \<in> set winning_combos. combo_in_range xs c"
    using assms by (intro winning_combos_in_range) simp
  have "scan_combos xs 0 winning_combos = Inr (Some (0 + i, xs ! fst (winning_combos ! i)))"
    using rng i by (intro scan_combos_first) simp_all
  moreover have "xs ! fst (winning_combos ! i) \<noteq> None"
    using i(2) by (auto simp: line_complete_def split: prod.splits)
  ultimately show ?thesis
    using True by (simp add: winner_of_def terminal_def)
next
  case False
  have rng: "\<forall>c \<in> set winning_combos. combo_in_range xs c"
    using assms by (intro winning_combos_in_range) simp
  have "scan_combos xs 0 winning_combos = Inr None"
    using rng False by (intro scan_combos_none) simp_all
  then show ?thesis
    using False by (simp add: winner_of_def terminal_def empties_Nil)
qed

text \<open>
  Claim C3. On a valid position \<open>minimax\<close> raises nothing; a move it returns is the index of
  an empty cell of the board it was given; and it returns no move exactly when the position
  is terminal, that is when some line is complete or no cell is empty.
\<close>

theorem minimax_move_legal:
  assumes "grid board < length s" and "valid_grid (cells board s)" and "valid_player player"
  shows "\<exists>score move. fst (minimax board player s) = Inr (score, move) \<and>
           (\<forall>m. move = Some m \<longrightarrow> m < 9 \<and> cells board s ! m = None) \<and>
           (move = None \<longleftrightarrow> terminal (cells board s))"
proof -
  let ?xs = "cells board s"
  have ref: "fst (minimax board player s) = Inr (search_value ?xs player)"
    using minimax_refines_aux(1)[of board s player] assms by simp
  have len: "length ?xs = 9"
    using assms(2) by (simp add: valid_grid_def)
  show ?thesis
  proof (cases "winner_of ?xs")
    case None
    then have nt: "\<not> terminal ?xs"
      using winner_of_terminal[OF len] by simp
    obtain y where y: "y \<in> set (empties ?xs)"
      "search_value ?xs player = (sign_of player * child_score ?xs player y, Some y)"
      using search_value_move[OF assms(2,3) None] by blast
    have "y < 9 \<and> ?xs ! y = None"
      using empties_in_range[OF y(1)] len by simp
    then show ?thesis
      using ref y(2) nt by simp
  next
    case (Some w)
    then have "terminal ?xs"
      using winner_of_terminal[OF len] by simp
    then show ?thesis
      using ref search_value_terminal[OF Some, of player] by simp
  qed
qed

theorem minimax_move_legal_witness:
  "\<exists>score move. fst (minimax \<lparr>grid = 0, winning_index = None\<rparr> PLAYER_O
        [[Some 1, Some 1, None, Some 2, Some 2, None, Some 1, None, None]]) = Inr (score, move) \<and>
     (\<forall>m. move = Some m \<longrightarrow> m < 9 \<and>
        [Some 1, Some 1, None, Some 2, Some 2, None, Some 1, None, None :: cell] ! m = None) \<and>
     move \<noteq> None"
proof -
  let ?b = "\<lparr>grid = 0, winning_index = None\<rparr>"
  let ?s = "[[Some 1, Some 1, None, Some 2, Some 2, None, Some 1, None, None :: cell]]"
  have cs: "cells ?b ?s = [Some 1, Some 1, None, Some 2, Some 2, None, Some 1, None, None]"
    by (simp add: cells_def lookup_def)
  have h: "grid ?b < length ?s" "valid_grid (cells ?b ?s)" "valid_player PLAYER_O"
    by (simp_all add: cs valid_grid_def valid_player_def PLAYER_X_def PLAYER_O_def)
  have nt: "\<not> terminal (cells ?b ?s)"
    by (simp add: cs terminal_def winning_combos_def line_complete_def)
  show ?thesis
    using minimax_move_legal[OF h] nt unfolding cs by simp
qed

section \<open>The value of the empty board\<close>

text \<open>
  The search from the empty board visits more than half a million positions. Its value is
  settled without running it: a strategy for either side that never loses bounds the value
  from both sides, and checking a strategy needs only the opponent's replies.

  \<open>quick_winner\<close> is \<open>winner_of\<close> on a list of nine cells, written on the cells themselves.
\<close>

definition line3 :: "cell \<Rightarrow> cell \<Rightarrow> cell \<Rightarrow> bool" where
  "line3 a b c \<longleftrightarrow> a \<noteq> None \<and> a = b \<and> b = c"

fun quick_winner :: "cell list \<Rightarrow> cell" where
  "quick_winner [a, b, c, d, e, f, g, h, i] =
     (if line3 a b c then a
      else if line3 d e f then d
      else if line3 g h i then g
      else if line3 a d g then a
      else if line3 b e h then b
      else if line3 c f i then c
      else if line3 a e i then a
      else if line3 c e g then c
      else if a = None \<or> b = None \<or> c = None \<or> d = None \<or> e = None \<or> f = None \<or>
              g = None \<or> h = None \<or> i = None
      then None else Some DRAW)"
| "quick_winner xs = None"

text \<open>
  A bounded check of the sign of a position's value for the player to move:
  \<open>holds_ge n xs p\<close> looks for one move whose outcome is at most 0 for the opponent, and
  \<open>holds_le n xs p\<close> checks that after every move the outcome is at least 0 for the
  opponent, each to depth \<open>n\<close>. A check that succeeds is shown sound for
  \<open>search_value\<close>; a check that runs out of depth just fails.
\<close>

function holds_ge :: "nat \<Rightarrow> cell list \<Rightarrow> int \<Rightarrow> bool"
  and holds_le :: "nat \<Rightarrow> cell list \<Rightarrow> int \<Rightarrow> bool"
  and some_child :: "nat \<Rightarrow> nat list \<Rightarrow> cell list \<Rightarrow> int \<Rightarrow> bool"
  and all_children :: "nat \<Rightarrow> nat list \<Rightarrow> cell list \<Rightarrow> int \<Rightarrow> bool"
where
  "holds_ge n xs p =
     (case quick_winner xs of
        Some w \<Rightarrow> 0 \<le> sign_of p * sign_of w
      | None \<Rightarrow> some_child n [4, 8, 6, 2, 0, 7, 5, 3, 1] xs p)"
| "holds_le n xs p =
     (case quick_winner xs of
        Some w \<Rightarrow> sign_of p * sign_of w \<le> 0
      | None \<Rightarrow> all_children n [0, 1, 2, 3, 4, 5, 6, 7, 8] xs p)"
| "some_child n [] xs p = False"
| "some_child 0 (sq # rest) xs p = False"
| "some_child (Suc n) (sq # rest) xs p =
     (if xs ! sq = None then
        (if holds_le n (xs[sq := Some p]) (switch_player p) then True
         else some_child (Suc n) rest xs p)
      else some_child (Suc n) rest xs p)"
| "all_children n [] xs p = True"
| "all_children 0 (sq # rest) xs p = False"
| "all_children (Suc n) (sq # rest) xs p =
     (if xs ! sq = None then
        (if holds_ge n (xs[sq := Some p]) (switch_player p) then all_children (Suc n) rest xs p
         else False)
      else all_children (Suc n) rest xs p)"
  by pat_completeness auto
termination
  by (relation "inv_image (less_than <*lex*> less_than <*lex*> less_than)
        (\<lambda>x. case x of
            Inl (Inl (n, xs, p)) \<Rightarrow> (n, 1, 0)
          | Inl (Inr (n, xs, p)) \<Rightarrow> (n, 1, 0)
          | Inr (Inl (n, sqs, xs, p)) \<Rightarrow> (n, 0, length sqs)
          | Inr (Inr (n, sqs, xs, p)) \<Rightarrow> (n, 0, length sqs))")
    auto


lemma nine_cells:
  assumes "length xs = 9"
  obtains a b c d e f g h i where "xs = [a, b, c, d, e, f, g, h, i]"
  using assms by (auto simp: eval_nat_numeral length_Suc_conv)

lemma scan_combos_step:
  "combo_in_range xs c \<Longrightarrow>
     scan_combos xs k (c # cs) =
       (if line_complete xs c then Inr (Some (k, xs ! fst c)) else scan_combos xs (Suc k) cs)"
  by (simp add: combo_wins_in_range)

lemma quick_winner_eq:
  assumes "length xs = 9"
  shows "quick_winner xs = winner_of xs"
proof -
  obtain a b c d e f g h i where xs: "xs = [a, b, c, d, e, f, g, h, i]"
    using assms by (rule nine_cells)
  have r:
    "combo_in_range xs (0, 1, 2)"
    "combo_in_range xs (3, 4, 5)"
    "combo_in_range xs (6, 7, 8)"
    "combo_in_range xs (0, 3, 6)"
    "combo_in_range xs (1, 4, 7)"
    "combo_in_range xs (2, 5, 8)"
    "combo_in_range xs (0, 4, 8)"
    "combo_in_range xs (2, 4, 6)"
    by (simp_all add: combo_in_range_def assms)
  have lines:
    "line_complete xs (0, 1, 2) = line3 a b c" "line_complete xs (3, 4, 5) = line3 d e f"
    "line_complete xs (6, 7, 8) = line3 g h i" "line_complete xs (0, 3, 6) = line3 a d g"
    "line_complete xs (1, 4, 7) = line3 b e h" "line_complete xs (2, 5, 8) = line3 c f i"
    "line_complete xs (0, 4, 8) = line3 a e i" "line_complete xs (2, 4, 6) = line3 c e g"
    by (simp_all add: xs line_complete_def line3_def)
  have nth: "xs ! 0 = a" "xs ! 1 = b" "xs ! 2 = c" "xs ! 3 = d" "xs ! 6 = g"
    by (simp_all add: xs)
  have scan: "scan_combos xs 0 winning_combos =
      (if line3 a b c then Inr (Some (0, a))
       else if line3 d e f then Inr (Some (Suc 0, d))
       else if line3 g h i then Inr (Some (Suc (Suc 0), g))
       else if line3 a d g then Inr (Some (Suc (Suc (Suc 0)), a))
       else if line3 b e h then Inr (Some (Suc (Suc (Suc (Suc 0))), b))
       else if line3 c f i then Inr (Some (Suc (Suc (Suc (Suc (Suc 0)))), c))
       else if line3 a e i then Inr (Some (Suc (Suc (Suc (Suc (Suc (Suc 0))))), a))
       else if line3 c e g then Inr (Some (Suc (Suc (Suc (Suc (Suc (Suc (Suc 0)))))), c))
       else Inr None)"
    unfolding winning_combos_def
    by (simp only: scan_combos_step[OF r(1)] scan_combos_step[OF r(2)] scan_combos_step[OF r(3)] scan_combos_step[OF r(4)] scan_combos_step[OF r(5)] scan_combos_step[OF r(6)] scan_combos_step[OF r(7)] scan_combos_step[OF r(8)] lines scan_combos.simps(1) fst_conv nth)
  have emp: "(empties xs = []) = (\<not> (a = None \<or> b = None \<or> c = None \<or> d = None \<or> e = None \<or>
      f = None \<or> g = None \<or> h = None \<or> i = None))"
    unfolding empties_Nil xs by (simp add: eq_commute[of None])
  have qw: "quick_winner xs =
     (if line3 a b c then a
      else if line3 d e f then d
      else if line3 g h i then g
      else if line3 a d g then a
      else if line3 b e h then b
      else if line3 c f i then c
      else if line3 a e i then a
      else if line3 c e g then c
      else if a = None \<or> b = None \<or> c = None \<or> d = None \<or> e = None \<or> f = None \<or>
              g = None \<or> h = None \<or> i = None
      then None else Some DRAW)"
    unfolding xs by (rule quick_winner.simps(1))
  show ?thesis
    unfolding winner_of_def scan emp qw
    by simp
qed

text \<open>The value of a position with the sign of the player to move: positive when that
  player wins, negative when the opponent does.\<close>

definition mover_value :: "cell list \<Rightarrow> int \<Rightarrow> int" where
  "mover_value xs p = sign_of p * fst (search_value xs p)"

lemma sign_of_square: "valid_player p \<Longrightarrow> sign_of p * sign_of p = 1"
  using sign_of_valid_player[of p] by auto

lemma mover_value_terminal:
  "winner_of xs = Some w \<Longrightarrow> mover_value xs p = sign_of p * sign_of w"
  by (simp add: mover_value_def search_value_terminal)

lemma child_score_mover_value:
  "valid_player p \<Longrightarrow>
     child_score xs p sq = - mover_value (xs[sq := Some p]) (switch_player p)"
  by (simp add: child_score_def mover_value_def sign_of_switch)

lemma mover_value_best:
  assumes "valid_grid xs" and "valid_player p" and "winner_of xs = None"
  shows "\<exists>y \<in> set (empties xs). mover_value xs p = child_score xs p y \<and>
           (\<forall>x \<in> set (empties xs). child_score xs p x \<le> child_score xs p y)"
proof -
  obtain y where y: "y \<in> set (empties xs)"
    "search_value xs p = (sign_of p * child_score xs p y, Some y)"
    "\<forall>x \<in> set (empties xs). child_score xs p x \<le> child_score xs p y"
    using search_value_move[OF assms] by blast
  have "mover_value xs p = (sign_of p * sign_of p) * child_score xs p y"
    using y(2) by (simp add: mover_value_def)
  then have "mover_value xs p = child_score xs p y"
    using sign_of_square[OF assms(2)] by simp
  then show ?thesis
    using y(1,3) by blast
qed

lemma some_child_elim:
  "some_child n sqs xs p \<Longrightarrow>
     \<exists>m sq. n = Suc m \<and> sq \<in> set sqs \<and> xs ! sq = None \<and>
       holds_le m (xs[sq := Some p]) (switch_player p)"
proof (induction sqs)
  case Nil
  then show ?case by simp
next
  case (Cons sq sqs)
  show ?case
  proof (cases n)
    case 0
    then show ?thesis using Cons.prems by simp
  next
    case (Suc m)
    show ?thesis
    proof (cases "xs ! sq = None \<and> holds_le m (xs[sq := Some p]) (switch_player p)")
      case True
      then show ?thesis using Suc by auto
    next
      case False
      then have "some_child n sqs xs p"
        using Cons.prems Suc by (auto split: if_splits)
      then show ?thesis
        using Cons.IH by auto
    qed
  qed
qed

lemma all_children_elim:
  "all_children n sqs xs p \<Longrightarrow> sq \<in> set sqs \<Longrightarrow> xs ! sq = None \<Longrightarrow>
     \<exists>m. n = Suc m \<and> holds_ge m (xs[sq := Some p]) (switch_player p)"
proof (induction sqs)
  case Nil
  then show ?case by simp
next
  case (Cons a sqs)
  show ?case
  proof (cases n)
    case 0
    then show ?thesis using Cons.prems by simp
  next
    case (Suc m)
    show ?thesis
    proof (cases "sq = a")
      case True
      then show ?thesis
        using Cons.prems Suc by (auto split: if_splits)
    next
      case False
      moreover have "all_children n sqs xs p"
        using Cons.prems(1) Suc by (auto split: if_splits)
      ultimately show ?thesis
        using Cons.IH Cons.prems(2,3) by auto
    qed
  qed
qed

lemma checker_sound:
  "valid_grid xs \<Longrightarrow> valid_player p \<Longrightarrow>
     (holds_ge n xs p \<longrightarrow> 0 \<le> mover_value xs p) \<and> (holds_le n xs p \<longrightarrow> mover_value xs p \<le> 0)"
proof (induction n arbitrary: xs p)
  case 0
  have qw: "quick_winner xs = winner_of xs"
    using "0.prems"(1) by (intro quick_winner_eq) (simp add: valid_grid_def)
  show ?case
  proof (cases "winner_of xs")
    case None
    obtain y where y: "y \<in> set (empties xs)"
      using mover_value_best[OF "0.prems" None] by blast
    then have "y < 9" "xs ! y = None"
      using empties_in_range[OF y] "0.prems"(1) by (simp_all add: valid_grid_def)
    then have "y \<in> set [0, 1, 2, 3, 4, 5, 6, 7, 8]"
      by auto
    then have "\<not> all_children 0 [0, 1, 2, 3, 4, 5, 6, 7, 8] xs p"
      using all_children_elim[of 0 _ xs p y] \<open>xs ! y = None\<close> by blast
    moreover have "\<not> some_child 0 [4, 8, 6, 2, 0, 7, 5, 3, 1] xs p"
      using some_child_elim[of 0 _ xs p] by blast
    ultimately show ?thesis
      using None qw by simp
  next
    case (Some w)
    then show ?thesis
      using qw by (simp add: mover_value_terminal)
  qed
next
  case (Suc n)
  have qw: "quick_winner xs = winner_of xs"
    using Suc.prems(1) by (intro quick_winner_eq) (simp add: valid_grid_def)
  show ?case
  proof (cases "winner_of xs")
    case (Some w)
    then show ?thesis
      using qw by (simp add: mover_value_terminal)
  next
    case None
    obtain y where y: "y \<in> set (empties xs)" "mover_value xs p = child_score xs p y"
      "\<forall>x \<in> set (empties xs). child_score xs p x \<le> child_score xs p y"
      using mover_value_best[OF Suc.prems None] by blast
    have child_valid: "valid_grid (xs[sq := Some p])" for sq
      using Suc.prems by (rule valid_grid_update)
    have ge: "0 \<le> mover_value xs p" if "holds_ge (Suc n) xs p"
    proof -
      have "some_child (Suc n) [4, 8, 6, 2, 0, 7, 5, 3, 1] xs p"
        using that None qw by simp
      then obtain sq where sq: "sq \<in> set [4, 8, 6, 2, 0, 7, 5, 3, 1]" "xs ! sq = None"
        "holds_le n (xs[sq := Some p]) (switch_player p)"
        using some_child_elim[of "Suc n" _ xs p] by blast
      have "sq < length xs"
        using sq(1) Suc.prems(1) by (auto simp: valid_grid_def)
      then have mem: "sq \<in> set (empties xs)"
        using sq(2) by (simp add: empties_def)
      have "mover_value (xs[sq := Some p]) (switch_player p) \<le> 0"
        using Suc.IH[OF child_valid valid_player_switch, of sq p] sq(3) by simp
      then have "0 \<le> child_score xs p sq"
        by (simp add: child_score_mover_value[OF Suc.prems(2)])
      then show ?thesis
        using y(2,3) mem by fastforce
    qed
    have le: "mover_value xs p \<le> 0" if "holds_le (Suc n) xs p"
    proof -
      have all: "all_children (Suc n) [0, 1, 2, 3, 4, 5, 6, 7, 8] xs p"
        using that None qw by simp
      have "y < 9" "xs ! y = None"
        using empties_in_range[OF y(1)] Suc.prems(1) by (simp_all add: valid_grid_def)
      then have "y \<in> set [0, 1, 2, 3, 4, 5, 6, 7, 8]"
        by auto
      then have "holds_ge n (xs[y := Some p]) (switch_player p)"
        using all_children_elim[OF all _ \<open>xs ! y = None\<close>] by auto
      then have "0 \<le> mover_value (xs[y := Some p]) (switch_player p)"
        using Suc.IH[OF child_valid valid_player_switch, of y p] by simp
      then show ?thesis
        using y(2) by (simp add: child_score_mover_value[OF Suc.prems(2)])
    qed
    show ?thesis
      using ge le by blast
  qed
qed

lemma empty_board_checks:
  "holds_ge 9 [None, None, None, None, None, None, None, None, None] PLAYER_X"
  "holds_le 9 [None, None, None, None, None, None, None, None, None] PLAYER_X"
  "holds_ge 9 [None, None, None, None, None, None, None, None, None] PLAYER_O"
  "holds_le 9 [None, None, None, None, None, None, None, None, None] PLAYER_O"
  by code_simp+

lemma search_value_empty_board:
  assumes "valid_player p"
  shows "fst (search_value (replicate 9 None) p) = 0"
proof -
  let ?e = "[None, None, None, None, None, None, None, None, None :: cell]"
  have e: "replicate 9 None = ?e"
    by (simp add: eval_nat_numeral)
  have v: "valid_grid ?e"
    by (simp add: valid_grid_def)
  have "holds_ge 9 ?e p \<and> holds_le 9 ?e p"
    using assms empty_board_checks unfolding valid_player_def by blast
  then have "mover_value ?e p = 0"
    using checker_sound[OF v assms, of 9] by simp
  then show ?thesis
    using sign_of_valid_player[OF assms] by (auto simp: mover_value_def e)
qed

text \<open>
  Claim C2. On the board of nine empty cells \<open>minimax\<close> returns the score 0, whichever of
  the two players is to move.
\<close>

theorem minimax_empty_board:
  assumes "grid board < length s" and "cells board s = replicate 9 None"
    and "player = PLAYER_X \<or> player = PLAYER_O"
  shows "\<exists>move. fst (minimax board player s) = Inr (0, move)"
proof -
  have p: "valid_player player"
    using assms(3) by (simp add: valid_player_def)
  have v: "valid_grid (cells board s)"
    by (simp add: assms(2) valid_grid_def)
  have "fst (minimax board player s) = Inr (search_value (replicate 9 None) player)"
    using minimax_refines_aux(1)[of board s player] assms(1,2) v p by simp
  then show ?thesis
    using search_value_empty_board[OF p]
    by (cases "search_value (replicate 9 None) player") auto
qed

theorem minimax_empty_board_witness:
  "(\<exists>move. fst (minimax \<lparr>grid = 0, winning_index = None\<rparr> PLAYER_X
        [[None, None, None, None, None, None, None, None, None]]) = Inr (0, move)) \<and>
   (\<exists>move. fst (minimax \<lparr>grid = 0, winning_index = None\<rparr> PLAYER_O
        [[None, None, None, None, None, None, None, None, None]]) = Inr (0, move))"
proof -
  let ?b = "\<lparr>grid = 0, winning_index = None\<rparr>"
  let ?s = "[[None, None, None, None, None, None, None, None, None :: cell]]"
  have h: "grid ?b < length ?s" "cells ?b ?s = replicate 9 None"
    by (simp_all add: cells_def lookup_def eval_nat_numeral)
  show ?thesis
    using minimax_empty_board[OF h, of PLAYER_X] minimax_empty_board[OF h, of PLAYER_O] by simp
qed

section \<open>Ties between moves\<close>

text \<open>
  The score the loop of \<open>minimax\<close> computes for one square: the body of the loop up to the
  comparison, on a store of its own. It is the score of the position after the move, seen
  by the player who moves.
\<close>

definition normalized_score :: "Board \<Rightarrow> int \<Rightarrow> nat \<Rightarrow> store \<Rightarrow> error + int" where
  "normalized_score board player square s =
     (case SCORES player of
        None \<Rightarrow> Inl KeyError
      | Some multiplier \<Rightarrow>
          (case clone board s of (board_copy, s1) \<Rightarrow>
             (case make_move board_copy (int square) player s1 of
                (Inl e, s2) \<Rightarrow> Inl e
              | (Inr u, s2) \<Rightarrow>
                  (case fst (minimax board_copy (switch_player player) s2) of
                     Inl e \<Rightarrow> Inl e
                   | Inr (score, move) \<Rightarrow> Inr (multiplier * score)))))"

lemma normalized_score_child_score:
  assumes "grid board < length s" and "valid_grid (cells board s)" and "valid_player player"
    and "sq \<in> set (empties (cells board s))"
  shows "normalized_score board player sq s = Inr (child_score (cells board s) player sq)"
proof -
  let ?xs = "cells board s"
  let ?c = "\<lparr>grid = length s, winning_index = None\<rparr>"
  let ?s2 = "s @ [?xs[sq := Some player]]"
  have sq: "sq < length ?xs" "?xs ! sq = None"
    using empties_in_range[OF assms(4)] by simp_all
  have cl: "clone board s = (?c, s @ [?xs])"
    by (simp add: clone_eq cells_def)
  have mv: "make_move ?c (int sq) player (s @ [?xs]) = (Inr (), ?s2)"
    using sq by (simp add: make_move_fresh)
  have cc: "cells ?c ?s2 = ?xs[sq := Some player]"
    by (simp add: cells_def lookup_fresh)
  have "fst (minimax ?c (switch_player player) ?s2) =
      Inr (search_value (?xs[sq := Some player]) (switch_player player))"
    using minimax_refines_aux(1)[of ?c ?s2 "switch_player player"] cc
      valid_grid_update[OF assms(2,3)] valid_player_switch[of player]
    by simp
  then show ?thesis
    using SCORES_valid_player[OF assms(3)] cl mv
    by (cases "search_value (?xs[sq := Some player]) (switch_player player)")
       (simp add: normalized_score_def child_score_def)
qed

text \<open>
  Claim C1, as the code has it. On a valid position that is not terminal, \<open>minimax\<close>
  returns an empty square whose score is the greatest among the empty squares, and when
  several empty squares have the greatest score it returns the last of them, the one with
  the highest index: the loop replaces its best move on every score that is at least the
  best so far.
\<close>

theorem minimax_tie_break:
  assumes "grid board < length s" and "valid_grid (cells board s)" and "valid_player player"
    and "\<not> terminal (cells board s)"
  shows "\<exists>score m v. fst (minimax board player s) = Inr (score, Some m) \<and>
           m \<in> set (get_empty_squares board None s) \<and>
           (\<forall>sq \<in> set (get_empty_squares board None s).
              normalized_score board player sq s = Inr (v sq) \<and> v sq \<le> v m \<and>
              (v sq = v m \<longrightarrow> sq \<le> m))"
proof -
  let ?xs = "cells board s"
  let ?v = "child_score ?xs player"
  have len: "length ?xs = 9"
    using assms(2) by (simp add: valid_grid_def)
  have w: "winner_of ?xs = None"
    using winner_of_terminal[OF len] assms(4) by simp
  obtain y where y: "y \<in> set (empties ?xs)"
    "search_value ?xs player = (sign_of player * ?v y, Some y)"
    "\<forall>x \<in> set (empties ?xs). ?v x \<le> ?v y"
    "\<forall>x \<in> set (empties ?xs). ?v x = ?v y \<longrightarrow> x \<le> y"
    using search_value_move[OF assms(2,3) w] by blast
  have "fst (minimax board player s) = Inr (sign_of player * ?v y, Some y)"
    using minimax_refines_aux(1)[of board s player] assms(1,2,3) y(2) by simp
  moreover have "normalized_score board player sq s = Inr (?v sq)"
    if "sq \<in> set (empties ?xs)" for sq
    using normalized_score_child_score[OF assms(1,2,3) that] .
  ultimately show ?thesis
    using y(1,3,4) unfolding get_empty_squares_empties by blast
qed

theorem minimax_tie_break_witness:
  "\<exists>score m v. fst (minimax \<lparr>grid = 0, winning_index = None\<rparr> PLAYER_X
        [[Some 1, Some 2, Some 1, None, Some 2, None, Some 2, Some 1, None]]) = Inr (score, Some m) \<and>
     m \<in> set (get_empty_squares \<lparr>grid = 0, winning_index = None\<rparr> None
        [[Some 1, Some 2, Some 1, None, Some 2, None, Some 2, Some 1, None]]) \<and>
     (\<forall>sq \<in> set (get_empty_squares \<lparr>grid = 0, winning_index = None\<rparr> None
        [[Some 1, Some 2, Some 1, None, Some 2, None, Some 2, Some 1, None]]).
        normalized_score \<lparr>grid = 0, winning_index = None\<rparr> PLAYER_X sq
          [[Some 1, Some 2, Some 1, None, Some 2, None, Some 2, Some 1, None]] = Inr (v sq) \<and>
        v sq \<le> v m \<and> (v sq = v m \<longrightarrow> sq \<le> m))"
proof -
  let ?b = "\<lparr>grid = 0, winning_index = None\<rparr>"
  let ?s = "[[Some 1, Some 2, Some 1, None, Some 2, None, Some 2, Some 1, None :: cell]]"
  have cs: "cells ?b ?s = [Some 1, Some 2, Some 1, None, Some 2, None, Some 2, Some 1, None]"
    by (simp add: cells_def lookup_def)
  have h: "grid ?b < length ?s" "valid_grid (cells ?b ?s)" "valid_player PLAYER_X"
    "\<not> terminal (cells ?b ?s)"
    by (simp_all add: cs valid_grid_def valid_player_def PLAYER_X_def PLAYER_O_def
        terminal_def winning_combos_def line_complete_def)
  show ?thesis
    by (rule minimax_tie_break[OF h])
qed

text \<open>
  The claim stated for the first such index fails: here the game is not over, squares 0
  and 1 are the empty squares, both have the score 0 for the player to move, and
  \<open>minimax\<close> returns square 1.
\<close>

theorem minimax_first_index_counterexample:
  "get_winner \<lparr>grid = 0, winning_index = None\<rparr> None
      [[None, None, Some 1, Some 1, Some 2, Some 2, Some 2, Some 1, Some 1]] =
     Inr (None, \<lparr>grid = 0, winning_index = None\<rparr>) \<and>
   get_empty_squares \<lparr>grid = 0, winning_index = None\<rparr> None
      [[None, None, Some 1, Some 1, Some 2, Some 2, Some 2, Some 1, Some 1]] = [0, 1] \<and>
   normalized_score \<lparr>grid = 0, winning_index = None\<rparr> PLAYER_O 0
      [[None, None, Some 1, Some 1, Some 2, Some 2, Some 2, Some 1, Some 1]] = Inr 0 \<and>
   normalized_score \<lparr>grid = 0, winning_index = None\<rparr> PLAYER_O 1
      [[None, None, Some 1, Some 1, Some 2, Some 2, Some 2, Some 1, Some 1]] = Inr 0 \<and>
   fst (minimax \<lparr>grid = 0, winning_index = None\<rparr> PLAYER_O
      [[None, None, Some 1, Some 1, Some 2, Some 2, Some 2, Some 1, Some 1]]) = Inr (0, Some 1)"
  by code_simp

section \<open>The endpoint on a valid request\<close>

text \<open>
  A valid move request: the grid of the request is a list of the store with nine cells,
  each empty or a player's mark, at least one of them empty; the player is one of the two
  players; the mode is absent or one of the three names.
\<close>

definition valid_request :: "request \<Rightarrow> addr \<Rightarrow> int \<Rightarrow> store \<Rightarrow> bool" where
  "valid_request d g ai_player s \<longleftrightarrow>
     req_grid d = Some g \<and> req_ai_player d = Some ai_player \<and> g < length s \<and>
     valid_grid (lookup s g) \<and> None \<in> set (lookup s g) \<and> valid_player ai_player \<and>
     valid_mode (req_mode d)"

text \<open>
  When the move comes from \<open>minimax\<close> rather than from a random draw: in mode
  \<open>difficult\<close> unless the board is all empty, in mode \<open>medium\<close> unless the board is all
  empty or the drawn float is below 0.5.
\<close>

definition delegates_to_search :: "random_draws \<Rightarrow> string \<Rightarrow> cell list \<Rightarrow> bool" where
  "delegates_to_search rnd mode xs \<longleftrightarrow>
     (mode = ''medium'' \<and> \<not> (length (empties xs) = 9 \<or> drawn_below_half rnd)) \<or>
     (mode = ''difficult'' \<and> length (empties xs) \<noteq> 9)"

text \<open>The response of the branch that finds no valid move.\<close>

definition unable :: response where
  "unable = Error_response 500 ''Unable to determine valid move''"

lemma random_choice_member:
  "es \<noteq> [] \<Longrightarrow> \<exists>m \<in> set es. random_choice rnd es = Inr m"
  by (simp add: random_choice_def)

lemma empties_all:
  assumes "length (empties xs) = length xs"
  shows "empties xs = [0..<length xs]"
proof -
  have "length (filter (\<lambda>i. xs ! i = None) [0..<length xs]) = length [0..<length xs]"
    using assms by (simp add: empties_def)
  then have "filter (\<lambda>i. xs ! i = None) [0..<length xs] = [0..<length xs]"
    by (metis (no_types, lifting) filter_True length_filter_less not_less_iff_gr_or_eq)
  then show ?thesis
    by (simp add: empties_def)
qed

lemma apply_move_member:
  assumes "g < length s" and "store_le s s3" and "m \<in> set es"
  shows "apply_move g p es (Some m) s3 =
           (Move_response m ((lookup s g)[m := Some p]) p, s3 @ [(lookup s g)[m := Some p]])"
proof -
  have "lookup s3 g = lookup s g"
    using assms(1,2) by (simp add: store_le_lookup)
  then show ?thesis
    using assms(3) by (simp add: apply_move_def list_copy_def alloc_def lookup_fresh)
qed

lemma ai_logic_result:
  assumes "grid board < length s1" and "valid_grid (cells board s1)" and "valid_player p"
    and "None \<in> set (cells board s1)" and "mode \<in> {''easy'', ''medium'', ''difficult''}"
  shows "\<exists>mv s3. ai_logic minimax rnd mode board p (empties (cells board s1)) s1 = (Inr mv, s3) \<and>
           store_le s1 s3 \<and>
           (if delegates_to_search rnd mode (cells board s1)
            then mv = snd (search_value (cells board s1) p)
            else \<exists>m \<in> set (empties (cells board s1)). mv = Some m)"
proof -
  let ?xs = "cells board s1"
  let ?es = "empties ?xs"
  have ne: "?es \<noteq> []"
    using assms(4) by (simp add: empties_Nil)
  have ie: "is_empty board None s1 = (length ?es = 9)"
    by (simp add: is_empty_def get_empty_squares_empties DIMENSIONS_def)
  obtain m where m: "m \<in> set ?es" "random_choice rnd ?es = Inr m"
    using random_choice_member[OF ne] by blast
  have rand: "random_randint rnd 0 8 \<in> set ?es" if "length ?es = 9"
  proof -
    have "length ?xs = 9"
      using assms(2) by (simp add: valid_grid_def)
    then have "?es = [0..<9]"
      using empties_all[of ?xs] that by simp
    then show ?thesis
      by (simp add: random_randint_def)
  qed
  obtain r b' s3 where res: "minimax board p s1 = (r, b', s3)"
    by (cases "minimax board p s1") auto
  have r: "r = Inr (search_value ?xs p)"
    using minimax_refines_aux(1)[of board s1 p] assms(1,2,3) res by simp
  have le: "store_le s1 s3"
    using minimax_frame[of s1 board p] res by simp
  obtain sc mv where sv: "search_value ?xs p = (sc, mv)"
    by (cases "search_value ?xs p") auto
  consider "mode = ''easy''" | "mode = ''medium''" | "mode = ''difficult''"
    using assms(5) by auto
  then show ?thesis
  proof cases
    case 1
    then show ?thesis
      using m by (auto simp: ai_logic_def GAME_MODES_def delegates_to_search_def store_le_refl)
  next
    case 2
    show ?thesis
    proof (cases "length ?es = 9 \<or> drawn_below_half rnd")
      case True
      then show ?thesis
        using 2 m ie by (auto simp: ai_logic_def GAME_MODES_def delegates_to_search_def store_le_refl)
    next
      case False
      then show ?thesis
        using 2 ie res r sv le by (auto simp: ai_logic_def GAME_MODES_def delegates_to_search_def)
    qed
  next
    case 3
    show ?thesis
    proof (cases "length ?es = 9")
      case True
      then show ?thesis
        using 3 ie rand by (auto simp: ai_logic_def GAME_MODES_def delegates_to_search_def store_le_refl)
    next
      case False
      then show ?thesis
        using 3 ie res r sv le by (auto simp: ai_logic_def GAME_MODES_def delegates_to_search_def)
    qed
  qed
qed

lemma search_value_move_cases:
  assumes "valid_grid xs" and "valid_player p"
  shows "if terminal xs then snd (search_value xs p) = None
         else \<exists>m \<in> set (empties xs). snd (search_value xs p) = Some m"
proof -
  have len: "length xs = 9"
    using assms(1) by (simp add: valid_grid_def)
  show ?thesis
  proof (cases "winner_of xs")
    case None
    then have "\<not> terminal xs"
      using winner_of_terminal[OF len] by simp
    moreover obtain y where "y \<in> set (empties xs)" "snd (search_value xs p) = Some y"
      using search_value_move[OF assms None] by fastforce
    ultimately show ?thesis
      by auto
  next
    case (Some w)
    then have "terminal xs"
      using winner_of_terminal[OF len] by simp
    then show ?thesis
      using search_value_terminal[OF Some, of p] by simp
  qed
qed

lemma ai_move_valid_result:
  assumes "valid_request d g p s"
  shows "\<exists>s'. store_le s s' \<and>
           (if delegates_to_search rnd (requested_mode d) (lookup s g) \<and> terminal (lookup s g)
            then ai_move rnd (Some d) s = (unable, s')
            else \<exists>m \<in> set (empties (lookup s g)).
                   ai_move rnd (Some d) s = (Move_response m ((lookup s g)[m := Some p]) p, s'))"
proof -
  let ?xs = "lookup s g"
  let ?board = "\<lparr>grid = length s, winning_index = None\<rparr>"
  let ?s1 = "s @ [?xs]"
  let ?mode = "requested_mode d"
  have v: "req_grid d = Some g" "req_ai_player d = Some p" "g < length s" "valid_grid ?xs"
    "None \<in> set ?xs" "valid_player p" "valid_mode (req_mode d)"
    using assms by (simp_all add: valid_request_def)
  have mode: "?mode \<in> {''easy'', ''medium'', ''difficult''}"
    using v(7) by (auto simp: valid_mode_def requested_mode_def)
  have len: "length ?xs = 9"
    using v(4) by (simp add: valid_grid_def)
  have cb: "cells ?board ?s1 = ?xs"
    by (simp add: cells_def lookup_fresh)
  have ne: "empties ?xs \<noteq> []"
    using v(5) by (simp add: empties_Nil)
  have le1: "store_le s ?s1"
    by (simp add: store_le_def)
  obtain mv s3 where al: "ai_logic minimax rnd ?mode ?board p (empties ?xs) ?s1 = (Inr mv, s3)"
    and le3: "store_le ?s1 s3"
    and mv: "if delegates_to_search rnd ?mode ?xs then mv = snd (search_value ?xs p)
             else \<exists>m \<in> set (empties ?xs). mv = Some m"
    using ai_logic_result[of ?board ?s1 p ?mode rnd] v(4,5,6) mode unfolding cb by auto
  have le: "store_le s s3"
    using le1 le3 by (rule store_le_trans)
  have unfold: "ai_move rnd (Some d) s = apply_move g p (empties ?xs) mv s3"
    using v(1,2,6) len mode ne al
    by (auto simp: ai_move_def ai_move_with_def valid_player_def GAME_MODES_def list_copy_def
        alloc_def Board_init_def get_empty_squares_fresh_copy empties_def)
  show ?thesis
  proof (cases "delegates_to_search rnd ?mode ?xs \<and> terminal ?xs")
    case True
    then have "mv = None"
      using mv search_value_move_cases[OF v(4,6)] by simp
    then have "ai_move rnd (Some d) s = (unable, s3)"
      using unfold by (simp add: apply_move_def unable_def)
    then show ?thesis
      using True le by auto
  next
    case False
    then obtain m where m: "m \<in> set (empties ?xs)" "mv = Some m"
      using mv search_value_move_cases[OF v(4,6)] by (auto split: if_splits)
    have "ai_move rnd (Some d) s =
        (Move_response m (?xs[m := Some p]) p, s3 @ [?xs[m := Some p]])"
      using unfold m apply_move_member[OF v(3) le m(1)] by simp
    moreover have "store_le s (s3 @ [?xs[m := Some p]])"
      using le by (auto simp: store_le_def)
    ultimately show ?thesis
      using False m(1) by auto
  qed
qed

section \<open>The failure branch and the frame of the endpoint\<close>

lemma terminal_not_all_empty:
  assumes "length xs = 9" and "terminal xs"
  shows "length (empties xs) \<noteq> 9"
proof
  assume "length (empties xs) = 9"
  then have all: "empties xs = [0..<9]"
    using empties_all[of xs] assms(1) by simp
  then have none: "xs ! i = None" if "i < 9" for i
    using empties_in_range[of i xs] that by simp
  have "None \<in> set xs"
    using none[of 0] assms(1) by (metis nth_mem zero_less_numeral)
  then obtain c where c: "c \<in> set winning_combos" "line_complete xs c"
    using assms(2) by (auto simp: terminal_def)
  obtain c0 c1 c2 where cc: "c = (c0, c1, c2)"
    by (cases c) auto
  have "c0 < 9"
    using c(1) cc by (auto simp: winning_combos_def)
  then show False
    using none[of c0] c(2) cc by (simp add: line_complete_def)
qed

lemma terminal_with_empty:
  "None \<in> set xs \<Longrightarrow> terminal xs \<longleftrightarrow> (\<exists>c \<in> set winning_combos. line_complete xs c)"
  by (simp add: terminal_def)

text \<open>
  Claim C10, as the code has it. On a valid position that is not terminal \<open>minimax\<close>
  returns a move: every empty square has a score of at least \<open>-1\<close>, the initial best
  score, and the comparison is not strict. For a valid request the endpoint therefore
  never answers \<open>Unable to determine valid move\<close> in mode \<open>easy\<close>; in mode \<open>difficult\<close> it
  answers so exactly when the grid already has a complete line, where \<open>minimax\<close> returns
  no move.
\<close>

theorem internal_failure_branch:
  "(grid board < length s \<and> valid_grid (cells board s) \<and> valid_player player \<and>
    \<not> terminal (cells board s) \<longrightarrow>
      (\<exists>score m. fst (minimax board player s) = Inr (score, Some m)) \<and>
      (\<forall>sq \<in> set (get_empty_squares board None s).
         \<exists>v. normalized_score board player sq s = Inr v \<and> - 1 \<le> v)) \<and>
   (valid_request d g p s \<and> requested_mode d = ''easy'' \<longrightarrow>
      (\<exists>m g'. fst (ai_move rnd (Some d) s) = Move_response m g' p)) \<and>
   (valid_request d g p s \<and> requested_mode d = ''difficult'' \<longrightarrow>
      (if \<exists>c \<in> set winning_combos. line_complete (lookup s g) c
       then fst (ai_move rnd (Some d) s) = Error_response 500 ''Unable to determine valid move''
       else \<exists>m g'. fst (ai_move rnd (Some d) s) = Move_response m g' p))"
proof (intro conjI impI)
  assume h: "grid board < length s \<and> valid_grid (cells board s) \<and> valid_player player \<and>
    \<not> terminal (cells board s)"
  then have "winner_of (cells board s) = None"
    using winner_of_terminal[of "cells board s"] by (simp add: valid_grid_def)
  then obtain y where "search_value (cells board s) player =
      (sign_of player * child_score (cells board s) player y, Some y)"
    using search_value_move[of "cells board s" player] h by blast
  moreover have "fst (minimax board player s) = Inr (search_value (cells board s) player)"
    using minimax_refines_aux(1)[of board s player] h by simp
  ultimately show "\<exists>score m. fst (minimax board player s) = Inr (score, Some m)"
    by simp
  show "\<forall>sq \<in> set (get_empty_squares board None s).
         \<exists>v. normalized_score board player sq s = Inr v \<and> - 1 \<le> v"
  proof
    fix sq
    assume "sq \<in> set (get_empty_squares board None s)"
    then have "sq \<in> set (empties (cells board s))"
      by (simp add: get_empty_squares_empties)
    then have "normalized_score board player sq s = Inr (child_score (cells board s) player sq)"
      using h by (intro normalized_score_child_score) simp_all
    moreover have "- 1 \<le> child_score (cells board s) player sq"
      using child_score_range[of "cells board s" player sq] h by auto
    ultimately show "\<exists>v. normalized_score board player sq s = Inr v \<and> - 1 \<le> v"
      by blast
  qed
next
  assume h: "valid_request d g p s \<and> requested_mode d = ''easy''"
  then have "\<not> delegates_to_search rnd (requested_mode d) (lookup s g)"
    by (simp add: delegates_to_search_def)
  then show "\<exists>m g'. fst (ai_move rnd (Some d) s) = Move_response m g' p"
    using ai_move_valid_result[of d g p s rnd] h by fastforce
next
  assume h: "valid_request d g p s \<and> requested_mode d = ''difficult''"
  let ?xs = "lookup s g"
  have v: "valid_grid ?xs" "None \<in> set ?xs"
    using h by (simp_all add: valid_request_def)
  have len: "length ?xs = 9"
    using v(1) by (simp add: valid_grid_def)
  have t: "terminal ?xs \<longleftrightarrow> (\<exists>c \<in> set winning_combos. line_complete ?xs c)"
    using v(2) by (rule terminal_with_empty)
  have del: "delegates_to_search rnd (requested_mode d) ?xs" if "terminal ?xs"
    using terminal_not_all_empty[OF len that] h by (simp add: delegates_to_search_def)
  show "if \<exists>c \<in> set winning_combos. line_complete ?xs c
       then fst (ai_move rnd (Some d) s) = Error_response 500 ''Unable to determine valid move''
       else \<exists>m g'. fst (ai_move rnd (Some d) s) = Move_response m g' p"
  proof (cases "terminal ?xs")
    case True
    then show ?thesis
      using ai_move_valid_result[of d g p s rnd] h del t by (auto simp: unable_def)
  next
    case False
    then show ?thesis
      using ai_move_valid_result[of d g p s rnd] h t by fastforce
  qed
qed

theorem internal_failure_branch_witness:
  "(\<exists>score m. fst (minimax \<lparr>grid = 0, winning_index = None\<rparr> PLAYER_O
        [[Some 1, None, None, None, Some 2, None, None, None, Some 1]]) = Inr (score, Some m)) \<and>
   (\<exists>m g'. fst (ai_move \<lparr>drawn_nat = 7, drawn_below_half = True\<rparr>
        (Some \<lparr>req_grid = Some 0, req_ai_player = Some 2, req_mode = Some ''easy''\<rparr>)
        [[Some 1, Some 1, Some 1, Some 2, Some 2, None, None, None, None]]) = Move_response m g' 2) \<and>
   fst (ai_move \<lparr>drawn_nat = 7, drawn_below_half = True\<rparr>
        (Some \<lparr>req_grid = Some 0, req_ai_player = Some 2, req_mode = None\<rparr>)
        [[Some 1, Some 1, Some 1, Some 2, Some 2, None, None, None, None]]) =
     Error_response 500 ''Unable to determine valid move''"
proof -
  let ?b = "\<lparr>grid = 0, winning_index = None\<rparr>"
  let ?s = "[[Some 1, None, None, None, Some 2, None, None, None, Some 1 :: cell]]"
  let ?won = "[[Some 1, Some 1, Some 1, Some 2, Some 2, None, None, None, None :: cell]]"
  let ?easy = "\<lparr>req_grid = Some 0, req_ai_player = Some 2, req_mode = Some ''easy''\<rparr>"
  let ?hard = "\<lparr>req_grid = Some 0, req_ai_player = Some 2, req_mode = None\<rparr>"
  let ?rnd = "\<lparr>drawn_nat = 7, drawn_below_half = True\<rparr>"
  have cs: "cells ?b ?s = [Some 1, None, None, None, Some 2, None, None, None, Some 1]"
    by (simp add: cells_def lookup_def)
  have pos: "grid ?b < length ?s \<and> valid_grid (cells ?b ?s) \<and> valid_player PLAYER_O \<and>
      \<not> terminal (cells ?b ?s)"
    by (simp add: cs valid_grid_def valid_player_def PLAYER_X_def PLAYER_O_def
        terminal_def winning_combos_def line_complete_def)
  have easy: "valid_request ?easy 0 2 ?won \<and> requested_mode ?easy = ''easy''"
    by (simp add: valid_request_def valid_grid_def valid_player_def valid_mode_def
        requested_mode_def lookup_def PLAYER_X_def PLAYER_O_def)
  have hard: "valid_request ?hard 0 2 ?won \<and> requested_mode ?hard = ''difficult''"
    by (simp add: valid_request_def valid_grid_def valid_player_def valid_mode_def
        requested_mode_def lookup_def PLAYER_X_def PLAYER_O_def)
  have line: "\<exists>c \<in> set winning_combos. line_complete (lookup ?won 0) c"
    by (simp add: winning_combos_def line_complete_def lookup_def)
  have p1: "\<exists>score m. fst (minimax ?b PLAYER_O ?s) = Inr (score, Some m)"
    using internal_failure_branch[where board = ?b and s = ?s and player = PLAYER_O, THEN conjunct1]
      pos
    by blast
  have p2: "\<exists>m g'. fst (ai_move ?rnd (Some ?easy) ?won) = Move_response m g' 2"
    using internal_failure_branch[where d = ?easy and g = 0 and p = 2 and s = ?won and rnd = ?rnd,
        THEN conjunct2, THEN conjunct1]
      easy
    by blast
  have p3: "fst (ai_move ?rnd (Some ?hard) ?won) =
      Error_response 500 ''Unable to determine valid move''"
    using internal_failure_branch[where d = ?hard and g = 0 and p = 2 and s = ?won and rnd = ?rnd,
        THEN conjunct2, THEN conjunct2]
      hard line
    by (simp only: if_True simp_thms)
  show ?thesis
    using p1 p2 p3 by (intro conjI)
qed

text \<open>
  The claim stated for every request that meets the preconditions of the endpoint fails
  in mode \<open>difficult\<close>: this request has nine cells, empty cells, a valid player and a valid
  mode, and the endpoint answers \<open>Unable to determine valid move\<close>, because player 1
  already has the first row.
\<close>

theorem internal_failure_counterexample:
  "valid_request \<lparr>req_grid = Some 0, req_ai_player = Some 2, req_mode = Some ''difficult''\<rparr> 0 2
      [[Some 1, Some 1, Some 1, Some 2, Some 2, None, None, None, None]] \<and>
   ai_move \<lparr>drawn_nat = 0, drawn_below_half = False\<rparr>
      (Some \<lparr>req_grid = Some 0, req_ai_player = Some 2, req_mode = Some ''difficult''\<rparr>)
      [[Some 1, Some 1, Some 1, Some 2, Some 2, None, None, None, None]] =
     (Error_response 500 ''Unable to determine valid move'',
      [[Some 1, Some 1, Some 1, Some 2, Some 2, None, None, None, None],
       [Some 1, Some 1, Some 1, Some 2, Some 2, None, None, None, None]])"
proof -
  have "valid_request \<lparr>req_grid = Some 0, req_ai_player = Some 2, req_mode = Some ''difficult''\<rparr> 0 2
      [[Some 1, Some 1, Some 1, Some 2, Some 2, None, None, None, None]]"
    by (simp add: valid_request_def valid_grid_def valid_player_def valid_mode_def
        lookup_def PLAYER_X_def PLAYER_O_def)
  moreover have "ai_move \<lparr>drawn_nat = 0, drawn_below_half = False\<rparr>
      (Some \<lparr>req_grid = Some 0, req_ai_player = Some 2, req_mode = Some ''difficult''\<rparr>)
      [[Some 1, Some 1, Some 1, Some 2, Some 2, None, None, None, None]] =
     (Error_response 500 ''Unable to determine valid move'',
      [[Some 1, Some 1, Some 1, Some 2, Some 2, None, None, None, None],
       [Some 1, Some 1, Some 1, Some 2, Some 2, None, None, None, None]])"
    by code_simp
  ultimately show ?thesis
    by simp
qed

lemma apply_move_store_le: "store_le s (snd (apply_move g p es mv s))"
  by (auto simp: apply_move_def list_copy_def alloc_def store_le_def Let_def split: option.splits)

lemma ai_logic_store_le: "store_le s (snd (ai_logic minimax rnd mode board p es s))"
proof -
  have "store_le s (snd (case minimax board p s of
        (Inl e, b', s') \<Rightarrow> (Inl e, s')
      | (Inr (score, move_index), b', s') \<Rightarrow> (Inr move_index, s')))"
    using minimax_frame[of s board p]
    by (cases "minimax board p s") (auto split: sum.splits simp del: minimax.simps)
  then show ?thesis
    by (auto simp: ai_logic_def store_le_refl split: sum.splits simp del: minimax.simps)
qed

text \<open>Whatever the request, the endpoint only adds lists to the store: no list that
  existed before the call is changed by it.\<close>

lemma ai_move_store_le: "store_le s (snd (ai_move rnd data s))"
proof (cases data)
  case None
  then show ?thesis
    by (simp add: ai_move_def ai_move_with_def store_le_refl)
next
  case (Some d)
  show ?thesis
  proof (cases "req_grid d")
    case None
    then show ?thesis
      using Some by (simp add: ai_move_def ai_move_with_def store_le_refl)
  next
    case g: (Some g)
    show ?thesis
    proof (cases "req_ai_player d")
      case None
      then show ?thesis
        using Some g by (simp add: ai_move_def ai_move_with_def store_le_refl)
    next
      case p: (Some p)
      let ?b = "\<lparr>grid = length s, winning_index = None\<rparr>"
      let ?s1 = "s @ [lookup s g]"
      let ?es = "get_empty_squares ?b None ?s1"
      have le1: "store_le s ?s1"
        by (simp add: store_le_def)
      obtain r s3 where al: "ai_logic minimax rnd (requested_mode d) ?b p ?es ?s1 = (r, s3)"
        by (cases "ai_logic minimax rnd (requested_mode d) ?b p ?es ?s1") auto
      have le3: "store_le s s3"
        using ai_logic_store_le[of ?s1 rnd "requested_mode d" ?b p ?es] al le1
        by (auto intro: store_le_trans)
      have le4: "store_le s (snd (apply_move g p ?es mv s3))" for mv
        using apply_move_store_le[of s3 g p ?es mv] le3 by (auto intro: store_le_trans)
      show ?thesis
        using Some g p al le1 le3 le4
        by (cases r)
           (auto simp: ai_move_def ai_move_with_def list_copy_def alloc_def Board_init_def
              store_le_refl Let_def simp del: minimax.simps)
    qed
  qed
qed

text \<open>
  Claim C9, as the code has it. On a valid request the endpoint changes no list that
  existed before the call, so the caller's grid is as it was. It answers with a move,
  unless the move is asked of \<open>minimax\<close> on a grid that already has a complete line, where
  it answers \<open>Unable to determine valid move\<close>. The grid of an answer with a move has nine
  cells and differs from the request's grid at the move index only, which was empty and
  now holds the player's mark.
\<close>

theorem ai_move_frame:
  assumes "valid_request d g p s"
  shows "(\<forall>a < length s. lookup (snd (ai_move rnd (Some d) s)) a = lookup s a) \<and>
         (if delegates_to_search rnd (requested_mode d) (lookup s g) \<and>
             (\<exists>c \<in> set winning_combos. line_complete (lookup s g) c)
          then fst (ai_move rnd (Some d) s) = Error_response 500 ''Unable to determine valid move''
          else \<exists>m g'. fst (ai_move rnd (Some d) s) = Move_response m g' p \<and>
                 m < 9 \<and> lookup s g ! m = None \<and> length g' = 9 \<and> g' ! m = Some p \<and>
                 (\<forall>i < 9. i \<noteq> m \<longrightarrow> g' ! i = lookup s g ! i))"
proof -
  let ?xs = "lookup s g"
  let ?r = "ai_move rnd (Some d) s"
  have v: "valid_grid ?xs" "None \<in> set ?xs"
    using assms by (simp_all add: valid_request_def)
  have len: "length ?xs = 9"
    using v(1) by (simp add: valid_grid_def)
  have t: "terminal ?xs \<longleftrightarrow> (\<exists>c \<in> set winning_combos. line_complete ?xs c)"
    using v(2) by (rule terminal_with_empty)
  obtain s' where le: "store_le s s'"
    and res: "if delegates_to_search rnd (requested_mode d) ?xs \<and> terminal ?xs
              then ?r = (unable, s')
              else \<exists>m \<in> set (empties ?xs). ?r = (Move_response m (?xs[m := Some p]) p, s')"
    using ai_move_valid_result[OF assms, of rnd] by blast
  have snd: "snd ?r = s'"
    using res by (auto split: if_splits)
  have frame: "\<forall>a < length s. lookup (snd ?r) a = lookup s a"
    using le snd by (simp add: store_le_lookup)
  show ?thesis
  proof (cases "delegates_to_search rnd (requested_mode d) ?xs \<and> terminal ?xs")
    case True
    then show ?thesis
      using res frame t by (simp add: unable_def)
  next
    case False
    then obtain m where m: "m \<in> set (empties ?xs)" "?r = (Move_response m (?xs[m := Some p]) p, s')"
      using res by auto
    have "m < 9" "?xs ! m = None"
      using empties_in_range[OF m(1)] len by simp_all
    then have "fst ?r = Move_response m (?xs[m := Some p]) p \<and>
        m < 9 \<and> ?xs ! m = None \<and> length (?xs[m := Some p]) = 9 \<and> (?xs[m := Some p]) ! m = Some p \<and>
        (\<forall>i < 9. i \<noteq> m \<longrightarrow> (?xs[m := Some p]) ! i = ?xs ! i)"
      using m(2) len by simp
    then show ?thesis
      using False frame t by auto
  qed
qed

theorem ai_move_frame_witness:
  "lookup (snd (ai_move \<lparr>drawn_nat = 13, drawn_below_half = False\<rparr>
        (Some \<lparr>req_grid = Some 0, req_ai_player = Some 1, req_mode = Some ''medium''\<rparr>)
        [[None, None, None, None, None, None, None, None, None]])) 0 =
     [None, None, None, None, None, None, None, None, None] \<and>
   (\<exists>m g'. fst (ai_move \<lparr>drawn_nat = 13, drawn_below_half = False\<rparr>
        (Some \<lparr>req_grid = Some 0, req_ai_player = Some 1, req_mode = Some ''medium''\<rparr>)
        [[None, None, None, None, None, None, None, None, None]]) = Move_response m g' 1 \<and>
      m < 9 \<and> length g' = 9 \<and> g' ! m = Some 1)"
proof -
  let ?d = "\<lparr>req_grid = Some 0, req_ai_player = Some 1, req_mode = Some ''medium''\<rparr>"
  let ?s = "[[None, None, None, None, None, None, None, None, None :: cell]]"
  let ?rnd = "\<lparr>drawn_nat = 13, drawn_below_half = False\<rparr>"
  have h: "valid_request ?d 0 1 ?s"
    by (simp add: valid_request_def valid_grid_def valid_player_def valid_mode_def
        lookup_def PLAYER_X_def PLAYER_O_def)
  have nl: "\<not> (\<exists>c \<in> set winning_combos. line_complete (lookup ?s 0) c)"
    by (simp add: winning_combos_def line_complete_def lookup_def)
  have l0: "lookup ?s 0 = [None, None, None, None, None, None, None, None, None]"
    by (simp add: lookup_def)
  have del: "\<not> (delegates_to_search ?rnd (requested_mode ?d) (lookup ?s 0) \<and>
      (\<exists>c \<in> set winning_combos. line_complete (lookup ?s 0) c))"
    using nl by blast
  have "\<forall>a < length ?s. lookup (snd (ai_move ?rnd (Some ?d) ?s)) a = lookup ?s a"
    using ai_move_frame[OF h, of ?rnd, THEN conjunct1] .
  then have f: "lookup (snd (ai_move ?rnd (Some ?d) ?s)) 0 = lookup ?s 0"
    by simp
  have "\<exists>m g'. fst (ai_move ?rnd (Some ?d) ?s) = Move_response m g' 1 \<and>
      m < 9 \<and> lookup ?s 0 ! m = None \<and> length g' = 9 \<and> g' ! m = Some 1 \<and>
      (\<forall>i < 9. i \<noteq> m \<longrightarrow> g' ! i = lookup ?s 0 ! i)"
    using ai_move_frame[OF h, of ?rnd, THEN conjunct2] del by (simp only: if_False)
  then have "\<exists>m g'. fst (ai_move ?rnd (Some ?d) ?s) = Move_response m g' 1 \<and>
      m < 9 \<and> length g' = 9 \<and> g' ! m = Some 1"
    by blast
  then show ?thesis
    using f unfolding l0 by (intro conjI)
qed

text \<open>
  The claim stated for every valid input fails where the game is already won: this
  request has nine cells, two of them empty, a valid player and a valid mode, and the answer
  is the failure, with no grid and no move.
\<close>

theorem ai_move_no_grid_counterexample:
  "valid_request \<lparr>req_grid = Some 0, req_ai_player = Some 2, req_mode = Some ''medium''\<rparr> 0 2
      [[Some 1, Some 2, Some 1, Some 2, Some 1, Some 2, Some 1, None, None]] \<and>
   fst (ai_move \<lparr>drawn_nat = 0, drawn_below_half = False\<rparr>
      (Some \<lparr>req_grid = Some 0, req_ai_player = Some 2, req_mode = Some ''medium''\<rparr>)
      [[Some 1, Some 2, Some 1, Some 2, Some 1, Some 2, Some 1, None, None]]) =
     Error_response 500 ''Unable to determine valid move''"
proof -
  have "valid_request \<lparr>req_grid = Some 0, req_ai_player = Some 2, req_mode = Some ''medium''\<rparr> 0 2
      [[Some 1, Some 2, Some 1, Some 2, Some 1, Some 2, Some 1, None, None]]"
    by (simp add: valid_request_def valid_grid_def valid_player_def valid_mode_def
        lookup_def PLAYER_X_def PLAYER_O_def)
  moreover have "fst (ai_move \<lparr>drawn_nat = 0, drawn_below_half = False\<rparr>
      (Some \<lparr>req_grid = Some 0, req_ai_player = Some 2, req_mode = Some ''medium''\<rparr>)
      [[Some 1, Some 2, Some 1, Some 2, Some 1, Some 2, Some 1, None, None]]) =
     Error_response 500 ''Unable to determine valid move''"
    by code_simp
  ultimately show ?thesis
    by simp
qed

section \<open>Termination and depth of the recursion\<close>

text \<open>
  \<open>minimax\<close> with a bound on the depth of its recursion: \<open>minimax_within depth\<close> runs
  the same code, but a call may be nested in it at most \<open>depth\<close> levels deep. The result is
  \<open>None\<close> when a deeper call would be needed.
\<close>

function minimax_within ::
    "nat \<Rightarrow> Board \<Rightarrow> int \<Rightarrow> store \<Rightarrow> ((error + int \<times> nat option) \<times> Board \<times> store) option"
  and minimax_loop_within ::
    "nat \<Rightarrow> Board \<Rightarrow> int \<Rightarrow> int \<Rightarrow> nat list \<Rightarrow> int \<Rightarrow> nat option \<Rightarrow> store
       \<Rightarrow> ((error + int \<times> nat option) \<times> store) option"
where
  "minimax_within depth board player s =
     (case SCORES player of
        None \<Rightarrow> Some (Inl KeyError, board, s)
      | Some multiplier \<Rightarrow>
          (case get_winner board None s of
             Inl e \<Rightarrow> Some (Inl e, board, s)
           | Inr (Some winner, board') \<Rightarrow>
               (case SCORES winner of
                  None \<Rightarrow> Some (Inl KeyError, board', s)
                | Some sc \<Rightarrow> Some (Inr (sc, None), board', s))
           | Inr (None, board') \<Rightarrow>
               (case minimax_loop_within depth board' player multiplier
                       (get_empty_squares board' None s) (- 1) None s of
                  None \<Rightarrow> None
                | Some (Inl e, s') \<Rightarrow> Some (Inl e, board', s')
                | Some (Inr (max_score, best_move), s') \<Rightarrow>
                    Some (Inr (multiplier * max_score, best_move), board', s'))))"
| "minimax_loop_within depth board player multiplier [] max_score best_move s =
     Some (Inr (max_score, best_move), s)"
| "minimax_loop_within depth board player multiplier (square # rest) max_score best_move s =
     (case clone board s of (board_copy, s1) \<Rightarrow>
        (case make_move board_copy (int square) player s1 of
           (Inl e, s2) \<Rightarrow> Some (Inl e, s2)
         | (Inr u, s2) \<Rightarrow>
             (case depth of
                0 \<Rightarrow> None
              | Suc below \<Rightarrow>
                  (case minimax_within below board_copy (switch_player player) s2 of
                     None \<Rightarrow> None
                   | Some (Inl e, b3, s3) \<Rightarrow> Some (Inl e, s3)
                   | Some (Inr (sub_score, sub_move), b3, s3) \<Rightarrow>
                       (let score = multiplier * sub_score in
                        if score \<ge> max_score
                        then minimax_loop_within depth board player multiplier rest score (Some square) s3
                        else minimax_loop_within depth board player multiplier rest max_score best_move s3)))))"
  by pat_completeness auto
termination
  by (relation "inv_image (less_than <*lex*> less_than <*lex*> less_than)
        (\<lambda>x. case x of
            Inl (depth, board, player, s) \<Rightarrow> (depth, 1, 0)
          | Inr (depth, board, player, multiplier, squares, max_score, best_move, s) \<Rightarrow>
              (depth, 0, length squares))")
    auto

lemma length_get_empty_squares:
  "length (get_empty_squares board None s) = empties_count s (grid board)"
proof -
  let ?xs = "lookup s (grid board)"
  have "filter (\<lambda>c. c = None) ?xs = filter (\<lambda>c. c = None) (map (nth ?xs) [0..<length ?xs])"
    by (simp add: map_nth)
  also have "\<dots> = map (nth ?xs) (filter (\<lambda>i. ?xs ! i = None) [0..<length ?xs])"
    by (simp add: filter_map comp_def)
  finally show ?thesis
    by (simp add: empties_count_def get_empty_squares_def grid_arg_def Let_def)
qed

lemma minimax_within_enough:
  "\<forall>depth. empties_count s (grid board) \<le> depth \<longrightarrow>
     minimax_within depth board player s = Some (minimax board player s)"
  "\<forall>depth. all_empty_at s (grid board) squares \<longrightarrow> empties_count s (grid board) \<le> depth \<longrightarrow>
     minimax_loop_within depth board player multiplier squares max_score best_move s =
       Some (minimax_loop board player multiplier squares max_score best_move s)"
proof (induct board player s and board player multiplier squares max_score best_move s
    rule: minimax_minimax_loop.induct)
  case (1 board player s)
  show ?case
  proof (intro allI impI)
    fix depth
    assume d: "empties_count s (grid board) \<le> depth"
    show "minimax_within depth board player s = Some (minimax board player s)"
    proof (cases "SCORES player")
      case None
      then show ?thesis by simp
    next
      case (Some multiplier)
      show ?thesis
      proof (cases "get_winner board None s")
        case (Inl e)
        then show ?thesis using Some by simp
      next
        case (Inr wb)
        obtain w board' where wb: "wb = (w, board')"
          by (cases wb) auto
        have gb: "grid board' = grid board"
          using get_winner_grid[of board None s w board'] Inr wb by simp
        show ?thesis
        proof (cases w)
          case (Some winner)
          then show ?thesis
            using \<open>SCORES player = Some multiplier\<close> Inr wb by (simp split: option.splits)
        next
          case None
          have "\<forall>depth. all_empty_at s (grid board') (get_empty_squares board' None s) \<longrightarrow>
                empties_count s (grid board') \<le> depth \<longrightarrow>
                minimax_loop_within depth board' player multiplier
                  (get_empty_squares board' None s) (- 1) None s =
                Some (minimax_loop board' player multiplier (get_empty_squares board' None s) (- 1) None s)"
            by (rule 1[of multiplier wb w board']) (simp_all only: Some Inr wb None)
          then have "minimax_loop_within depth board' player multiplier
                  (get_empty_squares board' None s) (- 1) None s =
                Some (minimax_loop board' player multiplier (get_empty_squares board' None s) (- 1) None s)"
            using d gb all_empty_at_get_empty_squares[of s board'] by simp
          then show ?thesis
            using Some Inr wb None by (simp split: prod.splits sum.splits)
        qed
      qed
    qed
  qed
next
  case (2 board player multiplier max_score best_move s)
  show ?case by simp
next
  case (3 board player multiplier square rest max_score best_move s)
  show ?case
  proof (intro allI impI)
    fix depth
    assume ae: "all_empty_at s (grid board) (square # rest)"
      and d: "empties_count s (grid board) \<le> depth"
    let ?xs = "lookup s (grid board)"
    let ?c = "\<lparr>grid = length s, winning_index = None\<rparr>"
    define s2 where "s2 = s @ [?xs[square := Some player]]"
    have sq: "square < length ?xs" "?xs ! square = None" and ar: "all_empty_at s (grid board) rest"
      using ae by (simp_all add: all_empty_at_Cons)
    have a: "grid board < length s"
      using sq(1) by (intro lookup_nonempty) auto
    have cl: "clone board s = (?c, s @ [?xs])"
      by (simp add: clone_eq)
    have mv: "make_move ?c (int square) player (s @ [?xs]) = (Inr (), s2)"
      using sq by (simp add: make_move_fresh s2_def)
    have less: "empties_count s2 (grid ?c) < empties_count s (grid board)"
      using filter_update_less[of square ?xs "\<lambda>c. c = None" "Some player"] sq
      by (simp add: empties_count_def s2_def lookup_fresh)
    then obtain below where below: "depth = Suc below" "empties_count s2 (grid ?c) \<le> below"
      using d by (cases depth) auto
    have "\<forall>depth. empties_count s2 (grid ?c) \<le> depth \<longrightarrow>
        minimax_within depth ?c (switch_player player) s2 = Some (minimax ?c (switch_player player) s2)"
      by (rule 3(1)[of ?c "s @ [?xs]" "Inr ()" s2 "()"]) (simp_all only: cl mv)
    then have inner: "minimax_within below ?c (switch_player player) s2 =
        Some (minimax ?c (switch_player player) s2)"
      using below(2) by blast
    obtain r b3 s3 where res: "minimax ?c (switch_player player) s2 = (r, b3, s3)"
      by (cases "minimax ?c (switch_player player) s2") auto
    have le: "store_le s s3"
      using minimax_frame[of s2 ?c "switch_player player"] res
      by (auto simp: s2_def store_le_def)
    have same: "lookup s3 (grid board) = ?xs"
      using le a by (rule store_le_lookup)
    have ar3: "all_empty_at s3 (grid board) rest" and d3: "empties_count s3 (grid board) \<le> depth"
      using ar d same by (simp_all add: all_empty_at_def empties_count_def)
    show "minimax_loop_within depth board player multiplier (square # rest) max_score best_move s =
        Some (minimax_loop board player multiplier (square # rest) max_score best_move s)"
    proof (cases r)
      case (Inl e)
      then show ?thesis
        using cl mv below(1) inner res by (simp del: minimax.simps minimax_within.simps)
    next
      case (Inr v)
      obtain cs cm where v: "v = (cs, cm)"
        by (cases v) auto
      show ?thesis
      proof (cases "max_score \<le> multiplier * cs")
        case True
        have "\<forall>depth. all_empty_at s3 (grid board) rest \<longrightarrow> empties_count s3 (grid board) \<le> depth \<longrightarrow>
            minimax_loop_within depth board player multiplier rest (multiplier * cs) (Some square) s3 =
            Some (minimax_loop board player multiplier rest (multiplier * cs) (Some square) s3)"
          by (rule 3(2)[of ?c "s @ [?xs]" "Inr ()" s2 "()" r "(b3, s3)" v cs cm b3 s3 "multiplier * cs"])
             (insert True, simp_all only: cl mv res Inr v simp_thms)
        then have "minimax_loop_within depth board player multiplier rest (multiplier * cs) (Some square) s3 =
            Some (minimax_loop board player multiplier rest (multiplier * cs) (Some square) s3)"
          using ar3 d3 by blast
        then show ?thesis
          using cl mv below(1) inner res Inr v True
          by (simp del: minimax.simps minimax_within.simps)
      next
        case False
        have "\<forall>depth. all_empty_at s3 (grid board) rest \<longrightarrow> empties_count s3 (grid board) \<le> depth \<longrightarrow>
            minimax_loop_within depth board player multiplier rest max_score best_move s3 =
            Some (minimax_loop board player multiplier rest max_score best_move s3)"
          by (rule 3(3)[of ?c "s @ [?xs]" "Inr ()" s2 "()" r "(b3, s3)" v cs cm b3 s3 "multiplier * cs"])
             (insert False, simp_all only: cl mv res Inr v simp_thms)
        then have "minimax_loop_within depth board player multiplier rest max_score best_move s3 =
            Some (minimax_loop board player multiplier rest max_score best_move s3)"
          using ar3 d3 by blast
        then show ?thesis
          using cl mv below(1) inner res Inr v False
          by (simp del: minimax.simps minimax_within.simps)
      qed
    qed
  qed
qed

text \<open>The bound really limits the depth: on a position whose search needs two nested
  calls, a bound of one gives no result.\<close>

lemma minimax_within_too_shallow:
  "minimax_within 1 \<lparr>grid = 0, winning_index = None\<rparr> PLAYER_O
      [[None, None, Some 1, Some 1, Some 2, Some 2, Some 2, Some 1, Some 1]] = None"
  by code_simp

text \<open>
  Claim C5. \<open>minimax\<close> terminates on every input: its arguments are in the domain on which
  the recursion is well-founded. Its recursion is never deeper than the number of empty
  cells of the board it is given: run with that number as the bound on the depth, it
  returns what \<open>minimax\<close> returns. A board of nine cells has at most nine empty cells, and
  every recursive call (one for each empty square) is on a board with fewer empty cells
  than the board of the caller.
\<close>

theorem minimax_depth_bound:
  "minimax_minimax_loop_dom (Inl (board, player, s)) \<and>
   minimax_within (length (get_empty_squares board None s)) board player s =
     Some (minimax board player s) \<and>
   (length (cells board s) = 9 \<longrightarrow> length (get_empty_squares board None s) \<le> 9) \<and>
   (\<forall>square \<in> set (get_empty_squares board None s).
      case clone board s of (board_copy, s1) \<Rightarrow>
        (case make_move board_copy (int square) player s1 of (r, s2) \<Rightarrow>
           r = Inr () \<and>
           length (get_empty_squares board_copy None s2) < length (get_empty_squares board None s)))"
proof (intro conjI)
  show "minimax_minimax_loop_dom (Inl (board, player, s))"
    using minimax_total by blast
  show "minimax_within (length (get_empty_squares board None s)) board player s =
      Some (minimax board player s)"
    using minimax_within_enough(1)[of s board player] by (simp add: length_get_empty_squares)
  show "length (cells board s) = 9 \<longrightarrow> length (get_empty_squares board None s) \<le> 9"
  proof
    assume "length (cells board s) = 9"
    then have "length (filter (\<lambda>c. c = None) (lookup s (grid board))) \<le> 9"
      using length_filter_le[of "\<lambda>c. c = None" "lookup s (grid board)"] by (simp add: cells_def)
    then show "length (get_empty_squares board None s) \<le> 9"
      by (simp add: length_get_empty_squares empties_count_def)
  qed
  show "\<forall>square \<in> set (get_empty_squares board None s).
      case clone board s of (board_copy, s1) \<Rightarrow>
        (case make_move board_copy (int square) player s1 of (r, s2) \<Rightarrow>
           r = Inr () \<and>
           length (get_empty_squares board_copy None s2) < length (get_empty_squares board None s))"
  proof
    fix square
    assume "square \<in> set (get_empty_squares board None s)"
    then have sq: "square < length (lookup s (grid board))" "lookup s (grid board) ! square = None"
      by (simp_all add: get_empty_squares_def grid_arg_def Let_def)
    let ?xs = "lookup s (grid board)"
    let ?c = "\<lparr>grid = length s, winning_index = None\<rparr>"
    have cl: "clone board s = (?c, s @ [?xs])"
      by (simp add: clone_eq)
    have mv: "make_move ?c (int square) player (s @ [?xs]) = (Inr (), s @ [?xs[square := Some player]])"
      using sq by (simp add: make_move_fresh)
    have "empties_count (s @ [?xs[square := Some player]]) (grid ?c) < empties_count s (grid board)"
      using filter_update_less[of square ?xs "\<lambda>c. c = None" "Some player"] sq
      by (simp add: empties_count_def lookup_fresh)
    then show "case clone board s of (board_copy, s1) \<Rightarrow>
        (case make_move board_copy (int square) player s1 of (r, s2) \<Rightarrow>
           r = Inr () \<and>
           length (get_empty_squares board_copy None s2) < length (get_empty_squares board None s))"
      by (simp add: cl mv length_get_empty_squares)
  qed
qed

theorem minimax_depth_bound_witness:
  "minimax_minimax_loop_dom (Inl (\<lparr>grid = 0, winning_index = None\<rparr>, PLAYER_X,
      [[Some 1, Some 2, Some 1, None, Some 2, None, Some 2, Some 1, None]])) \<and>
   minimax_within 3 \<lparr>grid = 0, winning_index = None\<rparr> PLAYER_X
      [[Some 1, Some 2, Some 1, None, Some 2, None, Some 2, Some 1, None]] =
     Some (minimax \<lparr>grid = 0, winning_index = None\<rparr> PLAYER_X
      [[Some 1, Some 2, Some 1, None, Some 2, None, Some 2, Some 1, None]])"
proof -
  let ?b = "\<lparr>grid = 0, winning_index = None\<rparr>"
  let ?s = "[[Some 1, Some 2, Some 1, None, Some 2, None, Some 2, Some 1, None :: cell]]"
  have n: "length (get_empty_squares ?b None ?s) = 3"
    by code_simp
  have "minimax_within (length (get_empty_squares ?b None ?s)) ?b PLAYER_X ?s =
      Some (minimax ?b PLAYER_X ?s)"
    using minimax_depth_bound[where board = ?b and player = PLAYER_X and s = ?s] by blast
  then have "minimax_within 3 ?b PLAYER_X ?s = Some (minimax ?b PLAYER_X ?s)"
    by (simp only: n)
  moreover have "minimax_minimax_loop_dom (Inl (?b, PLAYER_X, ?s))"
    using minimax_depth_bound[where board = ?b and player = PLAYER_X and s = ?s] by blast
  ultimately show ?thesis
    by (intro conjI)
qed

end
